theory Spec2Isabelle
  imports Complex_Main "HOL-Library.AList" "HOL-Library.Sublist"
begin

section \<open>JavaScript strings, sets and maps\<close>

text \<open>
  Strings are \<open>string\<close>; the separators the code searches for are ASCII, so
  searching bytes and searching UTF-16 code units agree. A JavaScript \<open>Set\<close> of
  strings iterates in insertion order and is a duplicate-free list here; a \<open>Map\<close> is an
  association list, a new key going to the end.
\<close>

text \<open>\<open>s.includes(sub)\<close>\<close>

fun js_includes :: "string \<Rightarrow> string \<Rightarrow> bool" where
  "js_includes sub [] = (sub = [])"
| "js_includes sub (c # cs) = (prefix sub (c # cs) \<or> js_includes sub cs)"

text \<open>\<open>s.split(sep)\<close> for a non-empty separator: the pieces between the
  non-overlapping occurrences of \<open>sep\<close>, found left to right. The first argument
  accumulates the current piece, reversed.\<close>

fun js_split_from :: "string \<Rightarrow> string \<Rightarrow> string \<Rightarrow> string list" where
  "js_split_from acc sep [] = [rev acc]"
| "js_split_from acc sep (c # cs) =
     (if prefix sep (c # cs) then rev acc # js_split_from [] sep (drop (length sep - 1) cs)
      else js_split_from (c # acc) sep cs)"

definition js_split :: "string \<Rightarrow> string \<Rightarrow> string list" where
  "js_split sep s = (if sep = [] then map (\<lambda>c. [c]) s else js_split_from [] sep s)"

lemma js_split_from_nonempty: "js_split_from acc sep s \<noteq> []"
  by (induction acc sep s rule: js_split_from.induct) auto

lemma js_split_from_two:
  "js_includes sep s \<Longrightarrow> sep \<noteq> [] \<Longrightarrow> 2 \<le> length (js_split_from acc sep s)"
proof (induction acc sep s rule: js_split_from.induct)
  case (1 acc sep)
  then show ?case by simp
next
  case (2 acc sep c cs)
  show ?case
  proof (cases "prefix sep (c # cs)")
    case True
    then show ?thesis
      using js_split_from_nonempty [of "[]" sep "drop (length sep - 1) cs"]
      by (cases "js_split_from [] sep (drop (length sep - 1) cs)") simp_all
  next
    case False
    then show ?thesis using 2 by simp
  qed
qed

lemma js_split_two: "js_includes sep s \<Longrightarrow> sep \<noteq> [] \<Longrightarrow> 2 \<le> length (js_split sep s)"
  by (simp add: js_split_def js_split_from_two)

text \<open>\<open>xs.join(sep)\<close>\<close>

fun js_join :: "string \<Rightarrow> string list \<Rightarrow> string" where
  "js_join sep [] = []"
| "js_join sep [x] = x"
| "js_join sep (x # y # ys) = x @ sep @ js_join sep (y # ys)"

text \<open>\<open>set.add(x)\<close> and adding every element of one set to another with
  \<open>forEach\<close>.\<close>

definition set_add :: "'a \<Rightarrow> 'a list \<Rightarrow> 'a list" where
  "set_add x xs = (if x \<in> set xs then xs else xs @ [x])"

definition set_add_all :: "'a list \<Rightarrow> 'a list \<Rightarrow> 'a list" where
  "set_add_all src dst = foldl (\<lambda>acc x. set_add x acc) dst src"

text \<open>\<open>a || b\<close> on an optional string field: \<open>undefined\<close> and the empty string are
  falsy.\<close>

definition js_or :: "string option \<Rightarrow> string \<Rightarrow> string" where
  "js_or v d = (case v of None \<Rightarrow> d | Some s \<Rightarrow> if s = [] then d else s)"

section \<open>The code graph\<close>

text \<open>
  A node object of \<open>graph.nodes\<close>. Module nodes carry \<open>type\<close>, \<open>id\<close> and \<open>zone\<close>;
  function and API nodes carry \<open>type\<close>, \<open>name\<close>, \<open>file\<close>, \<open>zone\<close>, \<open>parameters\<close>,
  \<open>returnType\<close>, \<open>isAsync\<close>, and API nodes a \<open>route\<close>. A field an object does not have
  is \<open>None\<close>.
\<close>

record node =
  ntype :: string
  nid :: "string option"
  nname :: "string option"
  nfile :: "string option"
  nroute :: "string option"
  nzone :: string
  nparameters :: "string list option"
  nreturnType :: "string option"
  nisAsync :: "bool option"

text \<open>An edge object. \<open>to\<close> is optional because the traversal guards against a
  null or undefined callee; \<open>callPath\<close> is the start (line, column) of a call's
  location.\<close>

record edge =
  efrom :: string
  eto :: "string option"
  etype :: string
  ekind :: "string option"
  callPath :: "(nat \<times> nat) option"

record metadata =
  unresolved_files :: nat
  total_files :: nat
  total_imports :: nat
  resolved_imports :: nat
  max_depth_detected :: nat
  indirect_nodes_found :: nat
  analysis_limit_reached :: bool

text \<open>\<open>graph.nodes\<close> is an object keyed by node identifier, in insertion order (the
  properties every object inherits from \<open>Object.prototype\<close> are not modelled).\<close>

record graph =
  nodes :: "(string \<times> node) list"
  edges :: "edge list"
  metadata :: metadata

section \<open>impactAnalysis.js: calculateBlastRadius\<close>

type_synonym adj = "(string \<times> string list) list"

text \<open>\<open>if (!adj.has(k)) adj.set(k, new Set()); adj.get(k).add(caller)\<close>\<close>

definition adj_add :: "string \<Rightarrow> string \<Rightarrow> adj \<Rightarrow> adj" where
  "adj_add k caller a =
     AList.update k (set_add caller (case map_of a k of None \<Rightarrow> [] | Some s \<Rightarrow> s)) a"

text \<open>\<open>id.includes('::') ? id.split('::')[1] : id\<close>. When the separator occurs, the
  split has at least two pieces (lemma \<open>js_split_two\<close>), so index 1 exists and the last
  case is never taken.\<close>

definition short_name :: "string \<Rightarrow> string" where
  "short_name s =
     (if js_includes ''::'' s
      then (case js_split ''::'' s of _ # b # _ \<Rightarrow> b | _ \<Rightarrow> s)
      else s)"

text \<open>The body of \<open>graph.edges.forEach\<close>.\<close>

definition add_edge :: "edge \<Rightarrow> adj \<Rightarrow> adj" where
  "add_edge e a =
     (if etype e = ''structural'' then a
      else case eto e of
        None \<Rightarrow> a
      | Some calleeId \<Rightarrow>
          let a1 = adj_add calleeId (efrom e) a;
              shortName = short_name calleeId
          in if shortName \<noteq> calleeId then adj_add shortName (efrom e) a1 else a1)"

definition build_adj :: "edge list \<Rightarrow> adj" where
  "build_adj es = foldl (\<lambda>a e. add_edge e a) [] es"

text \<open>The set \<open>dependents\<close> of one queue entry.\<close>

definition dependents_of :: "adj \<Rightarrow> string \<Rightarrow> string list" where
  "dependents_of a i =
     (let d1 = (case map_of a i of Some s \<Rightarrow> set_add_all s [] | None \<Rightarrow> []);
          shortId = short_name i
      in if shortId \<noteq> i
         then (case map_of a shortId of Some s \<Rightarrow> set_add_all s d1 | None \<Rightarrow> d1)
         else d1)"

record impact =
  imp_id :: string
  imp_type :: string
  imp_zone :: string
  imp_depth :: nat
  imp_chain :: string
  imp_file :: string
  imp_name :: string

record qentry =
  qid :: string
  qdepth :: nat
  qchain :: "string list"

text \<open>The separator of the chain, a space, U+2794 in UTF-8 and a space.\<close>

definition chain_sep :: string where
  "chain_sep = [CHR '' '', CHR 0xE2, CHR 0x9E, CHR 0x94, CHR '' '']"

definition mk_impact :: "graph \<Rightarrow> qentry \<Rightarrow> string \<Rightarrow> impact" where
  "mk_impact g q depId =
     (let nd = map_of (nodes g) depId;
          newChain = qchain q @ [depId]
      in \<lparr> imp_id = depId,
           imp_type = js_or (map_option ntype nd) ''unresolved'',
           imp_zone = js_or (map_option nzone nd) ''External/Unresolved'',
           imp_depth = qdepth q + 1,
           imp_chain = js_join chain_sep newChain,
           imp_file = js_or (Option.bind nd nfile) ''N/A'',
           imp_name = js_or (Option.bind nd nname) depId \<rparr>)"

definition mk_qentry :: "qentry \<Rightarrow> string \<Rightarrow> qentry" where
  "mk_qentry q depId =
     \<lparr> qid = depId, qdepth = qdepth q + 1, qchain = qchain q @ [depId] \<rparr>"

type_synonym bfs_state = "string set \<times> impact list \<times> qentry list"

text \<open>The loop \<open>for (const depId of dependents)\<close> on the state (visited, impacts,
  queue).\<close>

fun visit_deps :: "graph \<Rightarrow> qentry \<Rightarrow> string list \<Rightarrow> bfs_state \<Rightarrow> bfs_state" where
  "visit_deps g q [] st = st"
| "visit_deps g q (d # ds) (visited, impacts, queue) =
     (if d \<notin> visited
      then visit_deps g q ds
             (insert d visited, impacts @ [mk_impact g q d], queue @ [mk_qentry q d])
      else visit_deps g q ds (visited, impacts, queue))"

text \<open>The identifiers a \<open>for\<close> loop over \<open>ds\<close> finds unvisited, in order.\<close>

fun fresh :: "string set \<Rightarrow> string list \<Rightarrow> string list" where
  "fresh V [] = []"
| "fresh V (d # ds) = (if d \<in> V then fresh V ds else d # fresh (insert d V) ds)"

definition adj_callers :: "adj \<Rightarrow> string set" where
  "adj_callers a = (\<Union>kv \<in> set a. set (snd kv))"

lemma set_fresh: "set (fresh V ds) = set ds - V"
  by (induction ds arbitrary: V) auto

lemma distinct_fresh: "distinct (fresh V ds)"
  by (induction ds arbitrary: V) (auto simp: set_fresh)

lemma visit_deps_closed:
  "visit_deps g q ds (V, I, Q) =
     (V \<union> set ds, I @ map (mk_impact g q) (fresh V ds), Q @ map (mk_qentry q) (fresh V ds))"
  by (induction ds arbitrary: V I Q) auto

lemma set_set_add: "set (set_add x xs) = insert x (set xs)"
  by (auto simp: set_add_def)

lemma set_set_add_all: "set (set_add_all src dst) = set src \<union> set dst"
  unfolding set_add_all_def
  by (induction src arbitrary: dst) (auto simp: set_set_add)

lemma map_of_adj_callers: "map_of a k = Some s \<Longrightarrow> set s \<subseteq> adj_callers a"
  by (auto simp: adj_callers_def dest!: map_of_SomeD)

definition adj_get :: "adj \<Rightarrow> string \<Rightarrow> string set" where
  "adj_get a k = (case map_of a k of None \<Rightarrow> {} | Some s \<Rightarrow> set s)"

lemma adj_get_callers: "adj_get a k \<subseteq> adj_callers a"
  using map_of_adj_callers [of a k] by (cases "map_of a k") (simp_all add: adj_get_def)

lemma set_dependents_of:
  "set (dependents_of a i) = adj_get a i \<union> adj_get a (short_name i)"
  unfolding dependents_of_def Let_def adj_get_def
  by (simp split: option.splits add: set_set_add_all) blast

lemma dependents_of_callers: "set (dependents_of a i) \<subseteq> adj_callers a"
  using adj_get_callers by (simp add: set_dependents_of)

lemma finite_adj_callers: "finite (adj_callers a)"
  by (simp add: adj_callers_def)

text \<open>The \<open>while (queue.length > 0)\<close> loop. Each round takes the head of the queue;
  it ends because every identifier enters the queue at most once and all come from the
  finite adjacency map.\<close>

function bfs_loop :: "graph \<Rightarrow> adj \<Rightarrow> bfs_state \<Rightarrow> impact list" where
  "bfs_loop g a (visited, impacts, []) = impacts"
| "bfs_loop g a (visited, impacts, q # queue) =
     bfs_loop g a (visit_deps g q (dependents_of a (qid q)) (visited, impacts, queue))"
  by pat_completeness auto
termination
proof (relation "inv_image (less_than <*lex*> less_than)
          (\<lambda>(g, a, (V, I, Q)). (card (adj_callers a - V), length Q))")
  show "wf (inv_image (less_than <*lex*> less_than)
          (\<lambda>(g, a, (V, I, Q)). (card (adj_callers a - V), length Q)))"
    by (intro wf_inv_image wf_lex_prod wf_less_than)
next
  fix g :: graph and a :: adj and visited :: "string set" and impacts :: "impact list"
    and q :: qentry and queue :: "qentry list"
  let ?ds = "dependents_of a (qid q)"
  show "((g, a, visit_deps g q ?ds (visited, impacts, queue)), (g, a, visited, impacts, q # queue))
        \<in> inv_image (less_than <*lex*> less_than)
            (\<lambda>(g, a, (V, I, Q)). (card (adj_callers a - V), length Q))"
  proof (cases "fresh visited ?ds = []")
    case True
    then have "set ?ds - visited = {}"
      using set_fresh [of visited ?ds] by simp
    then have "visited \<union> set ?ds = visited" by auto
    with True show ?thesis by (simp add: visit_deps_closed)
  next
    case False
    then obtain d where d: "d \<in> set ?ds" "d \<notin> visited"
      using set_fresh [of visited ?ds] by (cases "fresh visited ?ds") auto
    then have "d \<in> adj_callers a" using dependents_of_callers by blast
    with d have "adj_callers a - (visited \<union> set ?ds) \<subset> adj_callers a - visited"
      by blast
    then have "card (adj_callers a - (visited \<union> set ?ds)) < card (adj_callers a - visited)"
      by (intro psubset_card_mono) (simp_all add: finite_adj_callers)
    then show ?thesis by (simp add: visit_deps_closed)
  qed
qed

definition calculateBlastRadius :: "graph \<Rightarrow> string \<Rightarrow> impact list" where
  "calculateBlastRadius g targetId =
     bfs_loop g (build_adj (edges g))
       ({targetId}, [], [\<lparr> qid = targetId, qdepth = 0, qchain = [targetId] \<rparr>])"

section \<open>Properties of the blast-radius traversal\<close>

lemma build_adj_structural:
  "\<forall>e\<in>set es. etype e = ''structural'' \<Longrightarrow> foldl (\<lambda>a e. add_edge e a) a0 es = a0"
  by (induction es arbitrary: a0) (simp_all add: add_edge_def)

lemma dependents_of_empty: "dependents_of [] i = []"
  by (simp add: dependents_of_def Let_def)

definition g_struct :: graph where
  "g_struct =
     \<lparr> nodes = [],
       edges = [\<lparr> efrom = ''m.js'', eto = Some ''m.js::f'', etype = ''structural'',
                  ekind = None, callPath = None \<rparr>],
       metadata = \<lparr> unresolved_files = 0, total_files = 1, total_imports = 0,
                    resolved_imports = 0, max_depth_detected = 1, indirect_nodes_found = 0,
                    analysis_limit_reached = True \<rparr> \<rparr>"

text \<open>
  Claim C6. Structural edges never contribute to the blast radius: when every edge of the
  graph has type \<open>structural\<close>, the traversal returns the empty Impact List for any
  target, because such edges never enter the reverse adjacency map.
\<close>

theorem structural_edges_empty_impact:
  assumes "\<forall>e\<in>set (edges g). etype e = ''structural''"
  shows "calculateBlastRadius g targetId = []"
proof -
  have "build_adj (edges g) = []"
    using assms by (simp add: build_adj_def build_adj_structural)
  then show ?thesis
    by (simp add: calculateBlastRadius_def dependents_of_empty)
qed

theorem structural_edges_empty_impact_witness:
  "map etype (edges g_struct) = [''structural''] \<and>
   calculateBlastRadius g_struct ''m.js::f'' = []"
  using structural_edges_empty_impact [of g_struct "''m.js::f''"]
  by (simp add: g_struct_def)

text \<open>The identifier and depth of every queue entry of a run, in queue order: the
  target, then one entry per impact record, since an entry is pushed with each record.\<close>

definition queue_entries :: "string \<Rightarrow> impact list \<Rightarrow> (string \<times> nat) list" where
  "queue_entries targetId imps = (targetId, 0) # map (\<lambda>r. (imp_id r, imp_depth r)) imps"

text \<open>The first queue entry with \<open>x\<close> among its dependents.\<close>

definition discoverer :: "adj \<Rightarrow> (string \<times> nat) list \<Rightarrow> string \<Rightarrow> (string \<times> nat) option" where
  "discoverer a entries x = find (\<lambda>p. x \<in> set (dependents_of a (fst p))) entries"

text \<open>The loop invariant; \<open>P\<close> lists the entries already taken from the queue.\<close>

definition bfs_inv :: "string \<Rightarrow> adj \<Rightarrow> (string \<times> nat) list \<Rightarrow> bfs_state \<Rightarrow> bool" where
  "bfs_inv t a P st = (case st of (V, I, Q) \<Rightarrow>
      queue_entries t I = P @ map (\<lambda>q. (qid q, qdepth q)) Q
    \<and> V = insert t (set (map imp_id I))
    \<and> distinct (map imp_id I)
    \<and> t \<notin> set (map imp_id I)
    \<and> (\<forall>p\<in>set P. set (dependents_of a (fst p)) \<subseteq> V)
    \<and> (\<forall>r\<in>set I. \<exists>p. discoverer a P (imp_id r) = Some p \<and> imp_depth r = snd p + 1))"

lemma imp_id_mk [simp]: "imp_id (mk_impact g q d) = d"
  by (simp add: mk_impact_def Let_def)

lemma imp_depth_mk [simp]: "imp_depth (mk_impact g q d) = qdepth q + 1"
  by (simp add: mk_impact_def Let_def)

lemma qid_mk [simp]: "qid (mk_qentry q d) = d"
  by (simp add: mk_qentry_def)

lemma qdepth_mk [simp]: "qdepth (mk_qentry q d) = qdepth q + 1"
  by (simp add: mk_qentry_def)

lemma discoverer_append_found:
  "discoverer a P x = Some p \<Longrightarrow> discoverer a (P @ P') x = Some p"
  by (induction P) (auto simp: discoverer_def)

lemma discoverer_append_new:
  assumes "\<forall>p\<in>set P. x \<notin> set (dependents_of a (fst p))"
    and "x \<in> set (dependents_of a (fst p'))"
  shows "discoverer a (P @ [p']) x = Some p'"
  using assms by (induction P) (auto simp: discoverer_def)

lemma bfs_inv_step:
  assumes "bfs_inv t a P (V, I, q # Q)"
  shows "bfs_inv t a (P @ [(qid q, qdepth q)])
           (visit_deps g q (dependents_of a (qid q)) (V, I, Q))"
proof -
  let ?ds = "dependents_of a (qid q)"
  let ?F = "fresh V ?ds"
  let ?I' = "I @ map (mk_impact g q) ?F"
  note inv = assms [unfolded bfs_inv_def split_conv list.map]
  have ent: "queue_entries t I = P @ (qid q, qdepth q) # map (\<lambda>q. (qid q, qdepth q)) Q"
    using inv by blast
  have V: "V = insert t (set (map imp_id I))"
    using inv by blast
  have dist: "distinct (map imp_id I)"
    using inv by blast
  have tnot: "t \<notin> set (map imp_id I)"
    using inv by blast
  have deps: "\<forall>p\<in>set P. set (dependents_of a (fst p)) \<subseteq> V"
    using inv by blast
  have disc: "\<forall>r\<in>set I. \<exists>p. discoverer a P (imp_id r) = Some p \<and> imp_depth r = snd p + 1"
    using inv by blast
  have F: "set ?F = set ?ds - V" by (rule set_fresh)
  have ids: "map imp_id (map (mk_impact g q) ?F) = ?F"
    by (induction ?F) (simp_all add: comp_def map_idI)
  have 1: "queue_entries t ?I' =
      (P @ [(qid q, qdepth q)]) @ map (\<lambda>q. (qid q, qdepth q)) (Q @ map (mk_qentry q) ?F)"
    using ent by (simp add: queue_entries_def comp_def)
  have 2: "V \<union> set ?ds = insert t (set (map imp_id ?I'))"
    using V F by (auto simp: comp_def)
  have 3: "distinct (map imp_id ?I')"
    using dist V F distinct_fresh [of V ?ds] by (auto simp: comp_def distinct_map inj_on_def)
  have 4: "t \<notin> set (map imp_id ?I')"
    using tnot V F by (auto simp: comp_def)
  have 5: "\<forall>p\<in>set (P @ [(qid q, qdepth q)]). set (dependents_of a (fst p)) \<subseteq> V \<union> set ?ds"
    using deps by auto
  have 6: "\<exists>p. discoverer a (P @ [(qid q, qdepth q)]) (imp_id r) = Some p \<and> imp_depth r = snd p + 1"
    if "r \<in> set ?I'" for r
  proof (cases "r \<in> set I")
    case True
    then show ?thesis using disc discoverer_append_found by blast
  next
    case False
    with that obtain d where d: "d \<in> set ?F" "r = mk_impact g q d" by auto
    then have "d \<in> set ?ds" "d \<notin> V" using F by auto
    then have "discoverer a (P @ [(qid q, qdepth q)]) d = Some (qid q, qdepth q)"
      using deps by (intro discoverer_append_new) auto
    then show ?thesis using d by simp
  qed
  show ?thesis
    unfolding visit_deps_closed bfs_inv_def split_conv
    using 1 2 3 4 5 6 by blast
qed

definition bfs_result_ok :: "string \<Rightarrow> adj \<Rightarrow> impact list \<Rightarrow> bool" where
  "bfs_result_ok t a R =
     (distinct (map imp_id R) \<and> t \<notin> set (map imp_id R)
      \<and> (\<forall>r\<in>set R. imp_depth r \<noteq> 0)
      \<and> (\<forall>r\<in>set R. \<exists>p. discoverer a (queue_entries t R) (imp_id r) = Some p
                           \<and> imp_depth r = snd p + 1))"

lemma bfs_loop_inv:
  "bfs_inv t a P st \<Longrightarrow> bfs_result_ok t a (bfs_loop g a st)"
proof (induction g a st arbitrary: P rule: bfs_loop.induct)
  case (1 g a visited impacts)
  then show ?case
    by (auto simp: bfs_inv_def bfs_result_ok_def)
next
  case (2 g a visited impacts q queue)
  have "bfs_inv t a (P @ [(qid q, qdepth q)])
          (visit_deps g q (dependents_of a (qid q)) (visited, impacts, queue))"
    using "2.prems" by (rule bfs_inv_step)
  then have "bfs_result_ok t a
          (bfs_loop g a (visit_deps g q (dependents_of a (qid q)) (visited, impacts, queue)))"
    by (rule "2.IH")
  then show ?case by simp
qed

lemma bfs_inv_init:
  "bfs_inv t a [] ({t}, [], [\<lparr> qid = t, qdepth = 0, qchain = [t] \<rparr>])"
  by (simp add: bfs_inv_def queue_entries_def)


text \<open>
  Claim C5. No duplicate visitation and target exclusion: for every graph and target, the
  Impact List holds each node identifier at most once, never the target, and no record of
  depth 0; and the depth of every record is 1 plus the depth of the queue entry that
  first discovered it. The queue entries, in the order the loop takes them, are the
  target at depth 0 followed by one entry per impact record (\<open>queue_entries\<close>); the
  entry that discovers an identifier is the first of them with the identifier among its
  dependents (\<open>discoverer\<close>).
\<close>

theorem impact_list_unique_depths:
  "distinct (map imp_id (calculateBlastRadius g t)) \<and>
   t \<notin> set (map imp_id (calculateBlastRadius g t)) \<and>
   (\<forall>r\<in>set (calculateBlastRadius g t). imp_depth r \<noteq> 0) \<and>
   (\<forall>r\<in>set (calculateBlastRadius g t).
      \<exists>p. discoverer (build_adj (edges g)) (queue_entries t (calculateBlastRadius g t)) (imp_id r)
             = Some p \<and> imp_depth r = snd p + 1)"
  using bfs_loop_inv [OF bfs_inv_init, of t "build_adj (edges g)" g]
  unfolding bfs_result_ok_def calculateBlastRadius_def by blast

definition g_chain :: graph where
  "g_chain =
     \<lparr> nodes = [],
       edges = [\<lparr> efrom = ''file2.ext::caller'', eto = Some ''foo'', etype = ''dependency'',
                  ekind = Some ''call'', callPath = None \<rparr>,
                \<lparr> efrom = ''file3.ext::top'', eto = Some ''caller'', etype = ''dependency'',
                  ekind = Some ''call'', callPath = None \<rparr>,
                \<lparr> efrom = ''file2.ext::caller'', eto = Some ''foo'', etype = ''dependency'',
                  ekind = Some ''call'', callPath = None \<rparr>],
       metadata = \<lparr> unresolved_files = 0, total_files = 3, total_imports = 0,
                    resolved_imports = 0, max_depth_detected = 0, indirect_nodes_found = 0,
                    analysis_limit_reached = False \<rparr> \<rparr>"

lemma short_name_file1: "short_name ''file1.ext::foo'' = ''foo''"
  by (simp add: short_name_def js_split_def)

lemma g_chain_adj: "build_adj (edges g_chain) = [(''foo'', [''file2.ext::caller'']), (''caller'', [''file3.ext::top''])]"
  by (simp add: g_chain_def build_adj_def add_edge_def adj_add_def short_name_def set_add_def)

lemma g_chain_result:
  "map (\<lambda>r. (imp_id r, imp_depth r)) (calculateBlastRadius g_chain ''file1.ext::foo'')
     = [(''file2.ext::caller'', 1), (''file3.ext::top'', 2)]"
  by (simp add: calculateBlastRadius_def g_chain_adj dependents_of_def short_name_def js_split_def
      set_add_all_def set_add_def Let_def)


theorem impact_list_unique_depths_witness:
  "map (\<lambda>r. (imp_id r, imp_depth r)) (calculateBlastRadius g_chain ''file1.ext::foo'')
     = [(''file2.ext::caller'', 1), (''file3.ext::top'', 2)] \<and>
   distinct (map imp_id (calculateBlastRadius g_chain ''file1.ext::foo'')) \<and>
   ''file1.ext::foo'' \<notin> set (map imp_id (calculateBlastRadius g_chain ''file1.ext::foo'')) \<and>
   discoverer (build_adj (edges g_chain))
     (queue_entries ''file1.ext::foo'' (calculateBlastRadius g_chain ''file1.ext::foo''))
     ''file2.ext::caller'' = Some (''file1.ext::foo'', 0) \<and>
   discoverer (build_adj (edges g_chain))
     (queue_entries ''file1.ext::foo'' (calculateBlastRadius g_chain ''file1.ext::foo''))
     ''file3.ext::top'' = Some (''file2.ext::caller'', 1)"
proof -
  note main = impact_list_unique_depths [of g_chain "''file1.ext::foo''"]
  have d: "discoverer (build_adj (edges g_chain))
     [(''file1.ext::foo'', 0), (''file2.ext::caller'', 1), (''file3.ext::top'', 2)]
     ''file2.ext::caller'' = Some (''file1.ext::foo'', 0)"
    "discoverer (build_adj (edges g_chain))
     [(''file1.ext::foo'', 0), (''file2.ext::caller'', 1), (''file3.ext::top'', 2)]
     ''file3.ext::top'' = Some (''file2.ext::caller'', 1)"
    by (simp_all add: discoverer_def g_chain_adj dependents_of_def short_name_def js_split_def
      set_add_all_def set_add_def Let_def)
  show ?thesis
    using main d g_chain_result by (simp add: queue_entries_def)
qed

lemma map_of_adj_add:
  "map_of (adj_add k c a) k' =
     (if k' = k then Some (set_add c (case map_of a k of None \<Rightarrow> [] | Some s \<Rightarrow> s))
      else map_of a k')"
  by (simp add: adj_add_def update_conv')

lemma adj_get_adj_add:
  "adj_get (adj_add k c a) k' = (if k' = k then insert c (adj_get a k) else adj_get a k')"
  by (cases "map_of a k") (simp_all add: adj_get_def map_of_adj_add set_set_add)

lemma adj_get_add_edge_mono: "adj_get a k \<subseteq> adj_get (add_edge e a) k"
  by (cases "eto e") (auto simp: add_edge_def Let_def adj_get_adj_add)

lemma adj_get_add_edge_full:
  "etype e \<noteq> ''structural'' \<Longrightarrow> eto e = Some c \<Longrightarrow> efrom e \<in> adj_get (add_edge e a) c"
  by (auto simp: add_edge_def Let_def adj_get_adj_add)

lemma adj_get_add_edge_short:
  "etype e \<noteq> ''structural'' \<Longrightarrow> eto e = Some c \<Longrightarrow>
   efrom e \<in> adj_get (add_edge e a) (short_name c)"
  by (auto simp: add_edge_def Let_def adj_get_adj_add)

lemma adj_get_foldl_mono:
  "adj_get a0 k \<subseteq> adj_get (foldl (\<lambda>a e. add_edge e a) a0 es) k"
proof (induction es arbitrary: a0)
  case Nil
  then show ?case by simp
next
  case (Cons e es)
  have "adj_get a0 k \<subseteq> adj_get (add_edge e a0) k" by (rule adj_get_add_edge_mono)
  also have "\<dots> \<subseteq> adj_get (foldl (\<lambda>a e. add_edge e a) (add_edge e a0) es) k"
    by (rule Cons.IH)
  finally show ?case by simp
qed

lemma build_adj_indexes_both:
  assumes "e \<in> set es" "etype e \<noteq> ''structural''" "eto e = Some c"
  shows "efrom e \<in> adj_get (foldl (\<lambda>a e. add_edge e a) a0 es) c
       \<and> efrom e \<in> adj_get (foldl (\<lambda>a e. add_edge e a) a0 es) (short_name c)"
  using assms
proof (induction es arbitrary: a0)
  case Nil
  then show ?case by simp
next
  case (Cons x es)
  show ?case
  proof (cases "x = e")
    case True
    have "efrom e \<in> adj_get (add_edge e a0) c" "efrom e \<in> adj_get (add_edge e a0) (short_name c)"
      using Cons.prems by (simp_all add: adj_get_add_edge_full adj_get_add_edge_short)
    then show ?thesis
      using adj_get_foldl_mono [of "add_edge e a0" _ es] True by auto
  next
    case False
    then have "e \<in> set es" using Cons.prems by simp
    then show ?thesis using Cons.IH Cons.prems by simp
  qed
qed

lemma bfs_loop_keeps: "set I \<subseteq> set (bfs_loop g a (V, I, Q))"
proof (induction g a "(V, I, Q)" arbitrary: V I Q rule: bfs_loop.induct)
  case (1 g a visited impacts)
  then show ?case by simp
next
  case (2 g a visited impacts q queue)
  from "2.hyps" [OF visit_deps_closed] show ?case
    by (simp add: visit_deps_closed)
qed

text \<open>
  Claim C3. Dual-key resolution: in every graph with the dependency edge from
  \<open>file2.ext::caller\<close> to the bare name \<open>foo\<close>, the traversal from the target
  \<open>file1.ext::foo\<close> finds \<open>file2.ext::caller\<close> at depth 1. The reasons are lemma
  \<open>build_adj_indexes_both\<close> (an edge's caller is registered under the full callee and
  under its short name) and lemma \<open>set_dependents_of\<close> (a lookup probes the full
  identifier and its short name).
\<close>

theorem dual_key_resolution:
  assumes "e \<in> set (edges g)"
    and "efrom e = ''file2.ext::caller''"
    and "eto e = Some ''foo''"
    and "etype e = ''dependency''"
  shows "\<exists>r\<in>set (calculateBlastRadius g ''file1.ext::foo'').
           imp_id r = ''file2.ext::caller'' \<and> imp_depth r = 1"
proof -
  let ?t = "''file1.ext::foo''" and ?c = "''file2.ext::caller''"
  let ?a = "build_adj (edges g)"
  let ?q = "\<lparr> qid = ?t, qdepth = 0, qchain = [?t] \<rparr>"
  let ?ds = "dependents_of ?a ?t"
  have "?c \<in> adj_get ?a ''foo''"
    using build_adj_indexes_both [of e "edges g" "''foo''" "[]"] assms
    by (simp add: build_adj_def)
  then have "?c \<in> set ?ds"
    by (simp add: set_dependents_of short_name_file1)
  then have "?c \<in> set (fresh {?t} ?ds)"
    by (simp add: set_fresh)
  then have "mk_impact g ?q ?c \<in> set (map (mk_impact g ?q) (fresh {?t} ?ds))"
    by simp
  moreover have "calculateBlastRadius g ?t =
      bfs_loop g ?a ({?t} \<union> set ?ds, [] @ map (mk_impact g ?q) (fresh {?t} ?ds),
                     [] @ map (mk_qentry ?q) (fresh {?t} ?ds))"
    by (simp add: calculateBlastRadius_def visit_deps_closed)
  ultimately have "mk_impact g ?q ?c \<in> set (calculateBlastRadius g ?t)"
    using bfs_loop_keeps [of "[] @ map (mk_impact g ?q) (fresh {?t} ?ds)" g ?a] by auto
  then show ?thesis
    by (intro bexI [of _ "mk_impact g ?q ?c"]) simp_all
qed

theorem dual_key_resolution_witness:
  "hd (edges g_chain) \<in> set (edges g_chain) \<and>
   efrom (hd (edges g_chain)) = ''file2.ext::caller'' \<and>
   eto (hd (edges g_chain)) = Some ''foo'' \<and>
   etype (hd (edges g_chain)) = ''dependency'' \<and>
   (\<exists>r\<in>set (calculateBlastRadius g_chain ''file1.ext::foo'').
           imp_id r = ''file2.ext::caller'' \<and> imp_depth r = 1)"
proof -
  have h: "hd (edges g_chain) \<in> set (edges g_chain)"
    "efrom (hd (edges g_chain)) = ''file2.ext::caller''"
    "eto (hd (edges g_chain)) = Some ''foo''"
    "etype (hd (edges g_chain)) = ''dependency''"
    by (simp_all add: g_chain_def)
  from dual_key_resolution [OF h] h show ?thesis by blast
qed

section \<open>Syntax trees\<close>

datatype ast =
    Identifier string
  | NullLiteral
  | MemberExpression ast ast
  | OptionalMemberExpression ast ast
  | CallExpression ast "ast list" "(nat \<times> nat) option"
  | OptionalCallExpression ast "ast list"
  | AwaitExpression ast
  | BinaryExpression string ast ast
  | UnaryExpression string ast
  | LogicalExpression string ast ast
  | ConditionalExpression ast ast ast
  | AssignmentExpression ast ast
  | AssignmentPattern ast ast
  | RestElement ast
  | ObjectPattern "ast list"
  | ArrayPattern "ast list"
  | ObjectProperty ast ast
  | VariableDeclarator ast "ast option"
  | IfStatement ast ast "ast option"
  | TryStatement ast "ast option" "ast option"
  | FunctionDeclaration "ast option" bool "ast list" ast
  | FunctionExpression "ast option" bool "ast list" ast
  | ArrowFunctionExpression bool "ast list" ast
  | ObjectMethod ast bool "ast list" ast
  | ImportDeclaration "ast list" string
  | ExportNamedDeclaration "ast option" "ast list" "string option"
  | ExportAllDeclaration string
  | Other string "ast list"

definition opt_list :: "'a option \<Rightarrow> 'a list" where
  "opt_list x = (case x of None \<Rightarrow> [] | Some a \<Rightarrow> [a])"

fun children :: "ast \<Rightarrow> ast list" where
  "children (Identifier n) = []"
| "children NullLiteral = []"
| "children (MemberExpression ob pr) = [ob, pr]"
| "children (OptionalMemberExpression ob pr) = [ob, pr]"
| "children (CallExpression callee args loc) = callee # args"
| "children (OptionalCallExpression callee args) = callee # args"
| "children (AwaitExpression a) = [a]"
| "children (BinaryExpression op l r) = [l, r]"
| "children (UnaryExpression op a) = [a]"
| "children (LogicalExpression op l r) = [l, r]"
| "children (ConditionalExpression t c a) = [t, c, a]"
| "children (AssignmentExpression l r) = [l, r]"
| "children (AssignmentPattern l r) = [l, r]"
| "children (RestElement a) = [a]"
| "children (ObjectPattern ps) = ps"
| "children (ArrayPattern es) = es"
| "children (ObjectProperty k v) = [k, v]"
| "children (VariableDeclarator i init) = i # opt_list init"
| "children (IfStatement t c a) = [t, c] @ opt_list a"
| "children (TryStatement b h f) = b # opt_list h @ opt_list f"
| "children (FunctionDeclaration i async ps b) = opt_list i @ ps @ [b]"
| "children (FunctionExpression i async ps b) = opt_list i @ ps @ [b]"
| "children (ArrowFunctionExpression async ps b) = ps @ [b]"
| "children (ObjectMethod k async ps b) = k # ps @ [b]"
| "children (ImportDeclaration specs src) = specs"
| "children (ExportNamedDeclaration d specs src) = opt_list d @ specs"
| "children (ExportAllDeclaration src) = []"
| "children (Other ty cs) = cs"

lemma set_opt_list [simp]: "set (opt_list x) = set_option x"
  by (cases x) (simp_all add: opt_list_def)

lemma size_list_member: "x \<in> set xs \<Longrightarrow> f x < size_list f xs"
  by (induction xs) auto

lemma size_children: "c \<in> set (children n) \<Longrightarrow> size c < size n"
  by (cases n) (auto dest: size_list_member [where f = size])

lemma size_child [termination_simp]:
  "(i, c) \<in> set (enumerate k (children n)) \<Longrightarrow> size c < size n"
  by (rule size_children) (auto simp: in_set_enumerate_eq)

type_synonym located = "ast \<times> nat list"
type_synonym nodepath = "ast \<times> nat list \<times> located list"

fun paths_from :: "located list \<Rightarrow> nat list \<Rightarrow> ast \<Rightarrow> nodepath list" where
  "paths_from anc pos n =
     (n, pos, anc) #
     concat (map (\<lambda>(i, c). paths_from ((n, pos) # anc) (pos @ [i]) c)
                 (enumerate 0 (children n)))"

declare paths_from.simps [simp del]


section \<open>The environment\<close>

record env =
  existsSync :: "string \<Rightarrow> bool"
  readFileSync :: "string \<Rightarrow> string + string"
  parse :: "string \<Rightarrow> string + ast"
  path_join :: "string \<Rightarrow> string \<Rightarrow> string"
  path_resolve :: "string list \<Rightarrow> string"
  path_relative :: "string \<Rightarrow> string \<Rightarrow> string"
  path_dirname :: "string \<Rightarrow> string"

section \<open>Script blocks of component files\<close>

definition js_space :: "char \<Rightarrow> bool" where
  "js_space c = (c \<in> set [CHR '' '', CHR 0x09, CHR 0x0A, CHR 0x0B, CHR 0x0C, CHR 0x0D])"

definition js_trim :: "string \<Rightarrow> string" where
  "js_trim s = rev (dropWhile js_space (rev (dropWhile js_space s)))"

definition is_quote :: "char \<Rightarrow> bool" where
  "is_quote c = (c = CHR 0x22 \<or> c = CHR 0x27)"

definition lang_attr :: "string \<Rightarrow> string option" where
  "lang_attr r =
     (let r1 = dropWhile js_space r
      in if r1 \<noteq> r \<and> prefix ''lang='' r1
         then (case drop 5 r1 of
                 q1 # t1 # s1 # q2 # rest \<Rightarrow>
                   if is_quote q1 \<and> t1 = CHR ''t'' \<and> s1 = CHR ''s'' \<and> is_quote q2
                   then Some rest else None
               | _ \<Rightarrow> None)
         else None)"

definition script_open :: "string \<Rightarrow> string option" where
  "script_open s =
     (if prefix ''<script'' s
      then (case drop 7 s of
              [] \<Rightarrow> None
            | c # rest \<Rightarrow>
                if c = CHR ''>'' then Some rest
                else (case lang_attr (c # rest) of
                        Some (c2 # rest2) \<Rightarrow> if c2 = CHR ''>'' then Some rest2 else None
                      | _ \<Rightarrow> None))
      else None)"

fun until_close :: "string \<Rightarrow> string \<Rightarrow> (string \<times> string) option" where
  "until_close acc [] = None"
| "until_close acc (c # cs) =
     (if prefix ''</script>'' (c # cs) then Some (rev acc, drop 9 (c # cs))
      else until_close (c # acc) cs)"


lemma until_close_shorter: "until_close acc r = Some (x, r') \<Longrightarrow> length r' < length r"
  by (induction acc r rule: until_close.induct) (auto split: if_splits)

lemma lang_attr_shorter: "lang_attr r = Some r' \<Longrightarrow> length r' < length r"
proof -
  assume a: "lang_attr r = Some r'"
  let ?r1 = "dropWhile js_space r"
  from a obtain q1 t1 s1 q2 where "drop 5 ?r1 = q1 # t1 # s1 # q2 # r'"
    by (auto simp: lang_attr_def Let_def split: if_splits list.splits)
  then have "length (drop 5 ?r1) = 4 + length r'" by simp
  moreover have "length ?r1 \<le> length r" by (rule length_dropWhile_le)
  ultimately show ?thesis by simp
qed

lemma script_open_shorter: "script_open s = Some r \<Longrightarrow> length r < length s"
proof -
  assume a: "script_open s = Some r"
  then have p: "prefix ''<script'' s" by (simp add: script_open_def split: if_splits)
  from a p obtain c rest where d: "drop 7 s = c # rest"
    by (cases "drop 7 s") (simp_all add: script_open_def)
  then have len: "length (c # rest) \<le> length s"
    by (metis diff_le_self length_drop)
  show ?thesis
  proof (cases "c = CHR ''>''")
    case True
    with a p d have "r = rest" by (simp add: script_open_def)
    with len show ?thesis by simp
  next
    case False
    with a p d obtain c2 where "lang_attr (c # rest) = Some (c2 # r)"
      by (auto simp: script_open_def split: option.splits list.splits if_splits)
    then have "length (c2 # r) < length (c # rest)" by (rule lang_attr_shorter)
    with len show ?thesis by simp
  qed
qed

function extract_from :: "string \<Rightarrow> string" where
  "extract_from [] = []"
| "extract_from (c # cs) =
     (case script_open (c # cs) of
        None \<Rightarrow> extract_from cs
      | Some rest \<Rightarrow>
          (case until_close [] rest of
             None \<Rightarrow> extract_from cs
           | Some (content, rest') \<Rightarrow> content @ [CHR 0x0A] @ extract_from rest'))"
  by pat_completeness auto
termination
proof (relation "measure length")
  show "wf (measure length)" by simp
next
  fix c cs show "(cs, c # cs) \<in> measure length" by simp
next
  fix c cs x2 show "(cs, c # cs) \<in> measure length" by simp
next
  fix c :: char and cs rest x2 content rest'
  assume "script_open (c # cs) = Some rest" "until_close [] rest = Some x2"
    "(content, rest') = x2"
  then have "length rest < length (c # cs)" "length rest' < length rest"
    using script_open_shorter until_close_shorter by (blast, metis)
  then show "(rest', c # cs) \<in> measure length" by simp
qed

definition extractScriptContent :: "string \<Rightarrow> string" where
  "extractScriptContent svelteCode = extract_from svelteCode"

section \<open>callerSafetyScanner.js\<close>

record safety_flags =
  hasTryCatch :: bool
  hasNullCheck :: bool
  isDestructuredImmediately :: bool
  assumedExists :: bool
  isAsyncCall :: bool
  isOptionalChaining :: bool

record probabilities =
  unsafeDereferenceLikelihood :: real
  unhandledErrorProbability :: real
  unsafeDereferenceBreakdown :: "string list"
  unhandledErrorBreakdown :: "string list"

text \<open>
  The code computes with IEEE doubles and rounds with \<open>parseFloat(x.toFixed(2))\<close>. The
  model computes with the decimal fractions the literals denote, as reals, and rounds to
  hundredths, a tie going up as \<open>toFixed\<close> decides it. Every intermediate value of the
  code is a sum or difference of at most three of the literals 0.7, 0.1, 0.2, 0.15, 0.5,
  0.4, 0.6, 0.01, possibly clamped at 0 or 1, so it differs from a multiple of 0.01 by
  rounding error only, and \<open>toFixed(2)\<close> prints the decimal the model computes; a
  result \<open>x\<close> of the model
  stands for the double nearest to \<open>x\<close>.
\<close>

definition toFixed2 :: "real \<Rightarrow> real" where
  "toFixed2 x =
     (if x < 0 then - (of_int \<lfloor>- x * 100 + 1 / 2\<rfloor> / 100)
      else of_int \<lfloor>x * 100 + 1 / 2\<rfloor> / 100)"

definition calculateSafetyProbabilities :: "'a safety_flags_scheme \<Rightarrow> probabilities" where
  "calculateSafetyProbabilities f =
     (let (u0, ub0) =
            (if \<not> hasNullCheck f \<and> \<not> isOptionalChaining f
             then (7 / 10, [''Base: No explicit null check or optional chaining found (+0.7)''])
             else (1 / 10, [''Base: Null check or optional chaining found (+0.1)'']));
          (u1, ub1) =
            (if isDestructuredImmediately f \<and> \<not> hasNullCheck f \<and> \<not> isOptionalChaining f
             then (u0 + 2 / 10, ub0 @ [''Condition: Destructuring without null guard (+0.2)''])
             else (u0, ub0));
          (u2, ub2) =
            (if assumedExists f \<and> \<not> hasNullCheck f \<and> \<not> isOptionalChaining f
             then (u1 + 15 / 100, ub1 @ [''Condition: Assumed existence without checks (+0.15)''])
             else (u1, ub1));
          (u3, ub3) =
            (if hasNullCheck f
             then (max 0 (u2 - 5 / 10), ub2 @ [''Mitigation: Explicit null check (-0.5)''])
             else (u2, ub2));
          (u4, ub4) =
            (if isOptionalChaining f
             then (max 0 (u3 - 4 / 10), ub3 @ [''Mitigation: Optional chaining (-0.4)''])
             else (u3, ub3));
          (e0, eb0) =
            (if \<not> hasTryCatch f
             then (6 / 10, [''Base: No try/catch block found (+0.6)''])
             else (1 / 10, [''Base: Try/catch block found (+0.1)'']));
          (e1, eb1) =
            (if isAsyncCall f \<and> \<not> hasTryCatch f
             then (e0 + 2 / 10, eb0 @ [''Condition: Async call without try/catch (+0.2)''])
             else (e0, eb0));
          u5 = max 0 (min 1 u4);
          e2 = max 0 (min 1 e1);
          (u6, e3, ub5, eb2) =
            (if hasNullCheck f \<and> \<not> isDestructuredImmediately f \<and> \<not> assumedExists f
                \<and> \<not> isAsyncCall f \<and> hasTryCatch f \<and> isOptionalChaining f
             then (0, 0,
                   ub4 @ [''Overall: All safety mechanisms present, minimal risk (0.00)''],
                   eb1 @ [''Overall: All safety mechanisms present, minimal risk (0.00)''])
             else if hasNullCheck f \<and> \<not> isDestructuredImmediately f \<and> \<not> assumedExists f
                \<and> \<not> isAsyncCall f \<and> hasTryCatch f
             then (min u5 (1 / 100), min e2 (1 / 100),
                   (if \<not> list_ex (js_includes ''Minimal residual risk'') ub4
                    then ub4 @ [''Overall: All major safety mechanisms present, minimal residual risk (0.01)'']
                    else ub4),
                   (if \<not> list_ex (js_includes ''Minimal residual risk'') eb1
                    then eb1 @ [''Overall: All major safety mechanisms present, minimal residual risk (0.01)'']
                    else eb1))
             else (u5, e2, ub4, eb1))
      in \<lparr> unsafeDereferenceLikelihood = toFixed2 u6,
           unhandledErrorProbability = toFixed2 e3,
           unsafeDereferenceBreakdown = ub5,
           unhandledErrorBreakdown = eb2 \<rparr>)"

text \<open>
  Claim C4. Full-mitigation override: a call site with has-null-check, has-try-catch and
  is-optional-chaining true and destructured-immediately, assumed-exists and
  is-async-call false gets exactly 0 for both probabilities.
\<close>

theorem full_mitigation_zero:
  assumes "hasNullCheck f" "hasTryCatch f" "isOptionalChaining f"
    and "\<not> isDestructuredImmediately f" "\<not> assumedExists f" "\<not> isAsyncCall f"
  shows "unsafeDereferenceLikelihood (calculateSafetyProbabilities f) = 0
       \<and> unhandledErrorProbability (calculateSafetyProbabilities f) = 0"
  using assms by (simp add: calculateSafetyProbabilities_def toFixed2_def Let_def)

definition safest_flags :: safety_flags where
  "safest_flags = \<lparr> hasTryCatch = True, hasNullCheck = True, isDestructuredImmediately = False,
                     assumedExists = False, isAsyncCall = False, isOptionalChaining = True \<rparr>"

theorem full_mitigation_zero_witness:
  "hasNullCheck safest_flags \<and> hasTryCatch safest_flags \<and> isOptionalChaining safest_flags
   \<and> isDestructuredImmediately safest_flags = False \<and> assumedExists safest_flags = False
   \<and> isAsyncCall safest_flags = False
   \<and> unsafeDereferenceLikelihood (calculateSafetyProbabilities safest_flags) = 0
   \<and> unhandledErrorProbability (calculateSafetyProbabilities safest_flags) = 0"
  using full_mitigation_zero [of safest_flags] by (simp add: safest_flags_def)

text \<open>
  A Safety Record: the six flags, and \<open>file\<close>, \<open>line\<close>, \<open>column\<close>, \<open>callee\<close>, the two
  probabilities and their breakdowns, the last eight under the prefix \<open>sr\<close>.
\<close>

record safety_record = safety_flags +
  sr_file :: string
  sr_line :: "nat option"
  sr_column :: "nat option"
  sr_callee :: string
  sr_unsafeDereferenceLikelihood :: real
  sr_unhandledErrorProbability :: real
  sr_unsafeDereferenceBreakdown :: "string list"
  sr_unhandledErrorBreakdown :: "string list"

text \<open>What \<open>scanCallerSafety\<close> returns: the record for a missing file (\<open>file\<close>,
  \<open>targetFunctionName\<close>, \<open>analysis\<close>), the record for a caught error (\<open>file\<close>,
  \<open>analysis\<close>), or a Safety Record.\<close>

datatype scan_entry =
    NotFound string string string
  | ScanFailed string string
  | CallSite safety_record

definition is_function_like :: "ast \<Rightarrow> bool" where
  "is_function_like n =
     (case n of FunctionDeclaration _ _ _ _ \<Rightarrow> True | ArrowFunctionExpression _ _ _ \<Rightarrow> True
      | FunctionExpression _ _ _ _ \<Rightarrow> True | ObjectMethod _ _ _ _ \<Rightarrow> True | _ \<Rightarrow> False)"

text \<open>\<open>node.async\<close>\<close>

definition node_async :: "ast \<Rightarrow> bool" where
  "node_async n =
     (case n of FunctionDeclaration _ a _ _ \<Rightarrow> a | ArrowFunctionExpression a _ _ \<Rightarrow> a
      | FunctionExpression _ a _ _ \<Rightarrow> a | ObjectMethod _ a _ _ \<Rightarrow> a | _ \<Rightarrow> False)"

definition is_await :: "ast \<Rightarrow> bool" where
  "is_await n = (case n of AwaitExpression _ \<Rightarrow> True | _ \<Rightarrow> False)"

definition is_try :: "ast \<Rightarrow> bool" where
  "is_try n = (case n of TryStatement _ _ _ \<Rightarrow> True | _ \<Rightarrow> False)"

definition is_optional :: "ast \<Rightarrow> bool" where
  "is_optional n =
     (case n of OptionalMemberExpression _ _ \<Rightarrow> True | OptionalCallExpression _ _ \<Rightarrow> True
      | _ \<Rightarrow> False)"

text \<open>\<open>t.isNullLiteral(e) || (t.isIdentifier(e) && e.name === 'undefined')\<close>\<close>

definition is_nullish :: "ast \<Rightarrow> bool" where
  "is_nullish e = (e = NullLiteral \<or> e = Identifier ''undefined'')"

text \<open>
  The code compares nodes by identity (\<open>===\<close>). A node of a tree is identified by its
  position, the list of child indices that leads to it from the root, so two nodes are
  the same object exactly when their positions are equal. \<open>track\<close> is
  \<open>expressionToTrack\<close>.
\<close>

definition isTargetExpression :: "string option \<Rightarrow> nat list \<Rightarrow> located \<Rightarrow> located \<Rightarrow> bool" where
  "isTargetExpression resultIdentifierName callpos track e =
     ((case resultIdentifierName of
         Some n \<Rightarrow> n \<noteq> [] \<and> fst e = Identifier n
       | None \<Rightarrow> False)
      \<or> snd e = callpos
      \<or> (snd e = snd track \<and> is_await (fst e)))"

text \<open>The null check found at one ancestor: an if statement or a conditional
  expression, by its test (child 0).\<close>

definition null_check_at :: "string option \<Rightarrow> nat list \<Rightarrow> located \<Rightarrow> located \<Rightarrow> bool" where
  "null_check_at rn callpos track a =
     (let isT = isTargetExpression rn callpos track;
          tested = (\<lambda>testNode. let tp = snd a @ [0] in
            (case testNode of
               BinaryExpression op l r \<Rightarrow>
                 (is_nullish r \<and> isT (l, tp @ [0])) \<or> (is_nullish l \<and> isT (r, tp @ [1]))
             | UnaryExpression op arg \<Rightarrow>
                 (op = ''!'' \<and> isT (arg, tp @ [0])) \<or> isT (testNode, tp)
             | LogicalExpression op l r \<Rightarrow>
                 (op = ''&&'' \<and> isT (l, tp @ [0])) \<or> isT (testNode, tp)
             | _ \<Rightarrow> isT (testNode, tp)))
      in case fst a of
           IfStatement testNode _ _ \<Rightarrow> tested testNode
         | ConditionalExpression testNode _ _ \<Rightarrow> tested testNode
         | _ \<Rightarrow> False)"

text \<open>The loop \<open>while (currentPath)\<close> over the ancestors from \<open>currentPath\<close> to the
  root, on (hasTryCatch, isAsyncCall, hasNullCheck).\<close>

fun walk_up :: "string option \<Rightarrow> nat list \<Rightarrow> located \<Rightarrow> located list
    \<Rightarrow> bool \<times> bool \<times> bool \<Rightarrow> bool \<times> bool \<times> bool" where
  "walk_up rn callpos track [] st = st"
| "walk_up rn callpos track (a # rest) (tryCatch, async, nullCheck) =
     walk_up rn callpos track rest
       (if is_try (fst a) then True else tryCatch,
        if is_function_like (fst a) \<and> node_async (fst a) then True else async,
        if \<not> nullCheck then (if null_check_at rn callpos track a then True else nullCheck)
        else nullCheck)"

text \<open>What a variable declarator whose \<open>init\<close> (child 1) is the tracked expression
  binds: (resultIdentifierName, isDestructuredImmediately).\<close>

definition declarator_binding :: "located \<Rightarrow> nat list \<Rightarrow> string option \<times> bool" where
  "declarator_binding d trackpos =
     (case fst d of
        VariableDeclarator i (Some init) \<Rightarrow>
          if snd d @ [1] = trackpos
          then (case i of
                  Identifier n \<Rightarrow> (Some n, False)
                | ObjectPattern _ \<Rightarrow> (None, True)
                | ArrayPattern _ \<Rightarrow> (None, True)
                | _ \<Rightarrow> (None, False))
          else (None, False)
      | _ \<Rightarrow> (None, False))"

definition null_node_message :: string where
  "null_node_message = ''Cannot read properties of null (reading 'node')''"

text \<open>The ancestors the loop walks: from the parent of the call, or from the parent of
  the await expression when the call is its argument.\<close>

definition walked :: "located \<Rightarrow> located list \<Rightarrow> located list" where
  "walked call ancestors =
     (case ancestors of
        [] \<Rightarrow> []
      | parent # grand \<Rightarrow>
          if is_await (fst parent) \<and> snd parent @ [0] = snd call then grand else ancestors)"

text \<open>
  The body of the \<open>CallExpression\<close> visitor for a call whose callee name is the target
  name. \<open>ancestors\<close> are \<open>p.parentPath\<close>, its parent and so on, each with its position.
  Reading \<open>.node\<close> of a missing parent path throws a TypeError (\<open>Inl\<close>).
\<close>

definition scan_call :: "string \<Rightarrow> string \<Rightarrow> located \<Rightarrow> located list \<Rightarrow> string + safety_record" where
  "scan_call filePath calleeName call ancestors =
     (case ancestors of
        [] \<Rightarrow> Inl null_node_message
      | parent # grand \<Rightarrow>
          let optional = is_optional (fst parent);
              awaited = (is_await (fst parent) \<and> snd parent @ [0] = snd call)
          in if awaited \<and> grand = [] then Inl null_node_message
             else
               let track = (if awaited then parent else call);
                   (rn, destructured) =
                     (if awaited then declarator_binding (hd grand) (snd parent)
                      else declarator_binding parent (snd call));
                   (tryCatch, async, nullCheck) =
                     walk_up rn (snd call) track (walked call ancestors) (False, False, optional);
                   assumed = (\<not> nullCheck \<and> \<not> tryCatch \<and> \<not> destructured \<and> \<not> optional);
                   pr = calculateSafetyProbabilities
                          \<lparr> hasTryCatch = tryCatch, hasNullCheck = nullCheck,
                            isDestructuredImmediately = destructured, assumedExists = assumed,
                            isAsyncCall = async, isOptionalChaining = optional \<rparr>
               in Inr \<lparr> hasTryCatch = tryCatch, hasNullCheck = nullCheck,
                        isDestructuredImmediately = destructured, assumedExists = assumed,
                        isAsyncCall = async, isOptionalChaining = optional,
                        sr_file = filePath,
                        sr_line = (case fst call of CallExpression _ _ loc \<Rightarrow> map_option fst loc
                                   | _ \<Rightarrow> None),
                        sr_column = (case fst call of CallExpression _ _ loc \<Rightarrow> map_option snd loc
                                     | _ \<Rightarrow> None),
                        sr_callee = calleeName,
                        sr_unsafeDereferenceLikelihood = unsafeDereferenceLikelihood pr,
                        sr_unhandledErrorProbability = unhandledErrorProbability pr,
                        sr_unsafeDereferenceBreakdown = unsafeDereferenceBreakdown pr,
                        sr_unhandledErrorBreakdown = unhandledErrorBreakdown pr \<rparr>)"

text \<open>The callee name of a call expression: an identifier callee, or the identifier
  property of a member expression.\<close>

definition callee_name :: "ast \<Rightarrow> string option" where
  "callee_name callee =
     (case callee of
        Identifier n \<Rightarrow> Some n
      | MemberExpression ob pr \<Rightarrow> (case pr of Identifier n \<Rightarrow> Some n | _ \<Rightarrow> None)
      | _ \<Rightarrow> None)"

text \<open>The visitor at one path: nothing to do (\<open>None\<close>), or the outcome of \<open>scan_call\<close>.\<close>

definition visit_call :: "string \<Rightarrow> string \<Rightarrow> nodepath \<Rightarrow> (string + safety_record) option" where
  "visit_call filePath targetFunctionName p =
     (case p of (n, pos, ancestors) \<Rightarrow>
        (case n of
           CallExpression callee args loc \<Rightarrow>
             if callee_name callee = Some targetFunctionName
             then Some (scan_call filePath targetFunctionName (n, pos) ancestors)
             else None
         | _ \<Rightarrow> None))"

text \<open>
  \<open>babelTraverse(ast, {CallExpression})\<close>: the visitors do not change the tree, so
  the traversal is a loop over the paths of the tree in depth-first pre-order. A throw
  ends it: the result is the records pushed so far and the message.
\<close>

fun scan_paths :: "string \<Rightarrow> string \<Rightarrow> nodepath list \<Rightarrow> scan_entry list
    \<Rightarrow> scan_entry list \<times> string option" where
  "scan_paths filePath tn [] acc = (acc, None)"
| "scan_paths filePath tn (p # ps) acc =
     (case visit_call filePath tn p of
        None \<Rightarrow> scan_paths filePath tn ps acc
      | Some (Inl msg) \<Rightarrow> (acc, Some msg)
      | Some (Inr r) \<Rightarrow> scan_paths filePath tn ps (acc @ [CallSite r]))"

definition scan_error :: "string \<Rightarrow> string \<Rightarrow> scan_entry" where
  "scan_error filePath msg = ScanFailed filePath (''Error during safety scan: '' @ msg)"

definition scanCallerSafety :: "env \<Rightarrow> string \<Rightarrow> string \<Rightarrow> scan_entry list" where
  "scanCallerSafety env filePath targetFunctionName =
     (if \<not> existsSync env filePath
      then [NotFound filePath targetFunctionName ''File not found for safety scan.'']
      else case readFileSync env filePath of
        Inl msg \<Rightarrow> [scan_error filePath msg]
      | Inr text \<Rightarrow>
          let code = (if suffix ''.svelte'' filePath then extractScriptContent text else text)
          in if suffix ''.svelte'' filePath \<and> js_trim code = [] then []
             else case parse env code of
               Inl msg \<Rightarrow> [scan_error filePath msg]
             | Inr tree \<Rightarrow>
                 (case scan_paths filePath targetFunctionName (paths_from [] [] tree) [] of
                    (acc, None) \<Rightarrow> acc
                  | (acc, Some msg) \<Rightarrow> acc @ [scan_error filePath msg]))"

lemma walk_up_null_kept:
  "snd (snd (walk_up rn cp tr as (t, a, True)))"
  by (induction as arbitrary: t a) simp_all

lemma walk_up_async:
  "fst (snd (walk_up rn cp tr as (t, a, n)))
     = (a \<or> (\<exists>x\<in>set as. is_function_like (fst x) \<and> node_async (fst x)))"
  by (induction as arbitrary: t a n) auto

lemma scan_call_optional_null:
  assumes "scan_call filePath cn call ancestors = Inr r" and "isOptionalChaining r"
  shows "hasNullCheck r"
proof (cases ancestors)
  case Nil
  with assms show ?thesis by (simp add: scan_call_def)
next
  case (Cons parent grand)
  let ?awaited = "is_await (fst parent) \<and> snd parent @ [0] = snd call"
  let ?track = "if ?awaited then parent else call"
  let ?rn = "fst (if ?awaited then declarator_binding (hd grand) (snd parent)
                  else declarator_binding parent (snd call))"
  let ?w = "walk_up ?rn (snd call) ?track (walked call ancestors)
              (False, False, is_optional (fst parent))"
  from assms(1) Cons have r: "isOptionalChaining r = is_optional (fst parent)"
    "hasNullCheck r = snd (snd ?w)"
    by (auto simp: scan_call_def Let_def split_beta split: if_splits)
  with assms(2) have "is_optional (fst parent)" by simp
  then have "snd (snd ?w)" using walk_up_null_kept by simp
  with r show ?thesis by simp
qed

lemma scan_call_async:
  assumes "scan_call filePath cn call ancestors = Inr r"
  shows "isAsyncCall r
     = (\<exists>a\<in>set (walked call ancestors). is_function_like (fst a) \<and> node_async (fst a))"
proof (cases ancestors)
  case Nil
  with assms show ?thesis by (simp add: scan_call_def)
next
  case (Cons parent grand)
  let ?awaited = "is_await (fst parent) \<and> snd parent @ [0] = snd call"
  let ?track = "if ?awaited then parent else call"
  let ?rn = "fst (if ?awaited then declarator_binding (hd grand) (snd parent)
                  else declarator_binding parent (snd call))"
  let ?w = "walk_up ?rn (snd call) ?track (walked call ancestors)
              (False, False, is_optional (fst parent))"
  from assms(1) Cons have "isAsyncCall r = fst (snd ?w)"
    by (auto simp: scan_call_def Let_def split_beta split: if_splits)
  then show ?thesis by (simp add: walk_up_async)
qed

lemma scan_paths_all:
  assumes "\<forall>e\<in>set acc. Q e"
    and "\<And>p r. visit_call filePath tn p = Some (Inr r) \<Longrightarrow> Q (CallSite r)"
  shows "\<forall>e\<in>set (fst (scan_paths filePath tn ps acc)). Q e"
  using assms(1)
proof (induction ps arbitrary: acc)
  case Nil
  then show ?case by simp
next
  case (Cons p ps)
  show ?case
  proof (cases "visit_call filePath tn p")
    case None
    then show ?thesis using Cons by simp
  next
    case (Some v)
    show ?thesis
    proof (cases v)
      case (Inl msg)
      then show ?thesis using Some Cons.prems by simp
    next
      case (Inr r)
      then have "\<forall>e\<in>set (acc @ [CallSite r]). Q e"
        using Some Cons.prems assms(2) by auto
      then have "\<forall>e\<in>set (fst (scan_paths filePath tn ps (acc @ [CallSite r]))). Q e"
        by (rule Cons.IH)
      then show ?thesis using Some Inr by simp
    qed
  qed
qed

lemma scanCallerSafety_sites:
  assumes "\<And>call ancestors r. scan_call filePath tn call ancestors = Inr r \<Longrightarrow> Q r"
    and "CallSite r \<in> set (scanCallerSafety env filePath tn)"
  shows "Q r"
proof -
  let ?Q = "\<lambda>e. case e of CallSite r \<Rightarrow> Q r | _ \<Rightarrow> True"
  have v: "?Q (CallSite r')" if "visit_call filePath tn p = Some (Inr r')" for p r'
    using that assms(1)
    by (auto simp: visit_call_def split: prod.splits ast.splits if_splits)
  have all: "\<forall>e\<in>set (fst (scan_paths filePath tn ps [])). ?Q e" for ps
    by (rule scan_paths_all) (simp, rule v)
  have "\<forall>e\<in>set (scanCallerSafety env filePath tn). ?Q e"
  proof (cases "existsSync env filePath")
    case False
    then show ?thesis by (simp add: scanCallerSafety_def)
  next
    case ex: True
    show ?thesis
    proof (cases "readFileSync env filePath")
      case (Inl msg)
      with ex show ?thesis by (simp add: scanCallerSafety_def scan_error_def)
    next
      case (Inr src)
      define scode where
        "scode = (if suffix ''.svelte'' filePath then extractScriptContent src else src)"
      show ?thesis
      proof (cases "suffix ''.svelte'' filePath \<and> js_trim scode = []")
        case True
        with ex Inr show ?thesis by (auto simp: scanCallerSafety_def scode_def Let_def)
      next
        case nb: False
        show ?thesis
        proof (cases "parse env scode")
          case (Inl msg)
          with ex Inr nb show ?thesis
            by (simp add: scanCallerSafety_def scan_error_def scode_def Let_def)
        next
          case tree: (Inr tree)
          obtain acc m where sp:
            "scan_paths filePath tn (paths_from [] [] tree) [] = (acc, m)"
            by (cases "scan_paths filePath tn (paths_from [] [] tree) []")
          have acc: "\<forall>e\<in>set acc. ?Q e"
            using all [of "paths_from [] [] tree"] sp by simp
          have "scanCallerSafety env filePath tn =
                  (case m of None \<Rightarrow> acc | Some msg \<Rightarrow> acc @ [scan_error filePath msg])"
            using ex Inr nb tree sp
            by (simp add: scanCallerSafety_def scode_def Let_def)
          then show ?thesis using acc
            by (cases m) (simp_all add: scan_error_def)
        qed
      qed
    qed
  qed
  with assms(2) show ?thesis by fastforce
qed


text \<open>
  Claim C7. Optional chaining implies null check: in every Safety Record the caller-safety
  scan produces, is-optional-chaining true implies has-null-check true.
\<close>

theorem optional_chaining_implies_null_check:
  assumes "CallSite r \<in> set (scanCallerSafety env filePath targetFunctionName)"
    and "isOptionalChaining r"
  shows "hasNullCheck r"
proof -
  have "isOptionalChaining r \<longrightarrow> hasNullCheck r"
    using assms(1)
    by (rule scanCallerSafety_sites [rotated]) (simp add: scan_call_optional_null)
  with assms(2) show ?thesis by simp
qed

text \<open>The file \<open>/p/c.js\<close> with the text \<open>foo()?.x;\<close> and its syntax tree.\<close>

definition chained_tree :: ast where
  "chained_tree =
     Other ''File'' [Other ''Program'' [Other ''ExpressionStatement''
       [OptionalMemberExpression (CallExpression (Identifier ''foo'') [] (Some (1, 0)))
          (Identifier ''x'')]]]"

definition chained_env :: env where
  "chained_env =
     \<lparr> existsSync = (\<lambda>p. p = ''/p/c.js''),
       readFileSync = (\<lambda>p. if p = ''/p/c.js'' then Inr ''foo()?.x;'' else Inl ''ENOENT''),
       parse = (\<lambda>s. if s = ''foo()?.x;'' then Inr chained_tree else Inl ''Unexpected token''),
       path_join = (\<lambda>a b. a @ ''/'' @ b),
       path_resolve = concat,
       path_relative = (\<lambda>a b. b),
       path_dirname = (\<lambda>a. a) \<rparr>"

definition chained_record :: safety_record where
  "chained_record =
     \<lparr> hasTryCatch = False, hasNullCheck = True, isDestructuredImmediately = False,
       assumedExists = False, isAsyncCall = False, isOptionalChaining = True,
       sr_file = ''/p/c.js'', sr_line = Some 1, sr_column = Some 0, sr_callee = ''foo'',
       sr_unsafeDereferenceLikelihood = 0,
       sr_unhandledErrorProbability = 6 / 10,
       sr_unsafeDereferenceBreakdown =
         [''Base: Null check or optional chaining found (+0.1)'',
          ''Mitigation: Explicit null check (-0.5)'',
          ''Mitigation: Optional chaining (-0.4)''],
       sr_unhandledErrorBreakdown = [''Base: No try/catch block found (+0.6)''] \<rparr>"

lemma chained_scan:
  "scanCallerSafety chained_env ''/p/c.js'' ''foo'' = [CallSite chained_record]"
  by (simp add: scanCallerSafety_def chained_env_def chained_tree_def chained_record_def
      visit_call_def callee_name_def scan_call_def walked_def is_await_def is_optional_def
      is_try_def is_function_like_def node_async_def null_check_at_def declarator_binding_def
      calculateSafetyProbabilities_def toFixed2_def Let_def paths_from.simps
      suffix_to_prefix)

theorem optional_chaining_implies_null_check_witness:
  "CallSite chained_record \<in> set (scanCallerSafety chained_env ''/p/c.js'' ''foo'')
   \<and> isOptionalChaining chained_record \<and> hasNullCheck chained_record"
proof -
  have 1: "CallSite chained_record \<in> set (scanCallerSafety chained_env ''/p/c.js'' ''foo'')"
    by (simp add: chained_scan)
  have 2: "isOptionalChaining chained_record" by (simp add: chained_record_def)
  from optional_chaining_implies_null_check [OF 1 2] 1 2 show ?thesis by simp
qed

text \<open>
  The reading of claim C8, in its words: walking upward, the first (innermost) enclosing
  function-like construct is marked asynchronous.
\<close>

definition first_enclosing_function_async :: "located list \<Rightarrow> bool" where
  "first_enclosing_function_async ancestors =
     (case find (\<lambda>a. is_function_like (fst a)) ancestors of
        None \<Rightarrow> False
      | Some a \<Rightarrow> node_async (fst a))"

text \<open>The file \<open>/p/n.js\<close> with the text
  \<open>async function outer() { run(() => { foo(); }); }\<close> and its syntax tree: the call of
  \<open>foo\<close> is in an arrow function that is not asynchronous, inside an asynchronous
  function.\<close>

definition nested_tree :: ast where
  "nested_tree =
     Other ''File'' [Other ''Program''
       [FunctionDeclaration (Some (Identifier ''outer'')) True []
          (Other ''BlockStatement'' [Other ''ExpressionStatement''
             [CallExpression (Identifier ''run'')
                [ArrowFunctionExpression False []
                   (Other ''BlockStatement'' [Other ''ExpressionStatement''
                      [CallExpression (Identifier ''foo'') [] (Some (1, 37))]])]
                (Some (1, 25))]])]]"

definition nested_call :: located where
  "nested_call =
     (CallExpression (Identifier ''foo'') [] (Some (1, 37)), [0, 0, 1, 0, 0, 1, 0, 0, 0])"

definition nested_ancestors :: "located list" where
  "nested_ancestors =
     (case find (\<lambda>p. (fst p, fst (snd p)) = nested_call) (paths_from [] [] nested_tree) of
        Some p \<Rightarrow> snd (snd p) | None \<Rightarrow> [])"

lemma nested_ancestors_kinds:
  "map (\<lambda>a. (is_function_like (fst a), node_async (fst a), snd a)) nested_ancestors =
     [(False, False, [0, 0, 1, 0, 0, 1, 0, 0]),
      (False, False, [0, 0, 1, 0, 0, 1, 0]),
      (True, False, [0, 0, 1, 0, 0, 1]),
      (False, False, [0, 0, 1, 0, 0]),
      (False, False, [0, 0, 1, 0]),
      (False, False, [0, 0, 1]),
      (True, True, [0, 0]),
      (False, False, [0]),
      (False, False, [])]"
  by (simp add: nested_ancestors_def nested_tree_def nested_call_def opt_list_def paths_from.simps
      is_function_like_def node_async_def)


lemma nested_ancestors_in_tree:
  "(fst nested_call, snd nested_call, nested_ancestors) \<in> set (paths_from [] [] nested_tree)"
  by (simp add: nested_ancestors_def nested_tree_def nested_call_def opt_list_def paths_from.simps)

lemma nested_walked: "walked nested_call nested_ancestors = nested_ancestors"
  by (simp add: walked_def nested_ancestors_def nested_tree_def nested_call_def opt_list_def paths_from.simps
      is_await_def)

lemma scan_call_returns:
  assumes "ancestors = parent # grand" and "\<not> is_await (fst parent)"
  shows "\<exists>r. scan_call filePath cn call ancestors = Inr r"
  using assms by (simp add: scan_call_def Let_def split_beta)

lemma nested_parent:
  "\<exists>grand. nested_ancestors =
     (Other ''ExpressionStatement'' [fst nested_call], [0, 0, 1, 0, 0, 1, 0, 0]) # grand"
  by (simp add: nested_ancestors_def nested_tree_def nested_call_def opt_list_def paths_from.simps)

lemma nested_scan_returns: "\<exists>r. scan_call ''/p/n.js'' ''foo'' nested_call nested_ancestors = Inr r"
proof -
  obtain grand where "nested_ancestors =
     (Other ''ExpressionStatement'' [fst nested_call], [0, 0, 1, 0, 0, 1, 0, 0]) # grand"
    using nested_parent by blast
  then show ?thesis by (rule scan_call_returns) (simp add: is_await_def)
qed

lemma nested_some_async:
  "\<exists>a\<in>set nested_ancestors. is_function_like (fst a) \<and> node_async (fst a)"
proof -
  have "(True, True, [0, 0]) \<in> set (map (\<lambda>a. (is_function_like (fst a), node_async (fst a), snd a)) nested_ancestors)"
    by (simp add: nested_ancestors_kinds)
  then show ?thesis by auto
qed

lemma nested_first_not_async: "\<not> first_enclosing_function_async nested_ancestors"
  by (simp add: first_enclosing_function_async_def nested_ancestors_def nested_tree_def
      nested_call_def opt_list_def paths_from.simps is_function_like_def node_async_def)

theorem async_flag_first_function_counterexample:
  "(fst nested_call, snd nested_call, nested_ancestors) \<in> set (paths_from [] [] nested_tree)
   \<and> (case scan_call ''/p/n.js'' ''foo'' nested_call nested_ancestors of
        Inr r \<Rightarrow> isAsyncCall r | Inl msg \<Rightarrow> False)
   \<and> \<not> first_enclosing_function_async (walked nested_call nested_ancestors)"
proof -
  obtain r where r: "scan_call ''/p/n.js'' ''foo'' nested_call nested_ancestors = Inr r"
    using nested_scan_returns by blast
  then have "isAsyncCall r"
    using scan_call_async [OF r] nested_some_async by (simp add: nested_walked)
  with r show ?thesis
    by (simp add: nested_ancestors_in_tree nested_walked nested_first_not_async)
qed

text \<open>
  Claim C8, amended. For every matched call site, the is-async-call flag is true exactly
  when some enclosing function-like construct (function declaration, arrow function,
  function expression or object method), at any level above the call (above the await
  expression when the call is its argument), is marked asynchronous.
\<close>

theorem async_flag_any_enclosing_function:
  assumes "scan_call filePath calleeName call ancestors = Inr r"
  shows "isAsyncCall r
     = (\<exists>a\<in>set (walked call ancestors). is_function_like (fst a) \<and> node_async (fst a))"
  using assms by (rule scan_call_async)

theorem async_flag_any_enclosing_function_witness:
  "(\<exists>r. scan_call ''/p/n.js'' ''foo'' nested_call nested_ancestors = Inr r \<and> isAsyncCall r)
   \<and> (\<exists>a\<in>set (walked nested_call nested_ancestors).
         is_function_like (fst a) \<and> node_async (fst a))"
proof -
  obtain r where r: "scan_call ''/p/n.js'' ''foo'' nested_call nested_ancestors = Inr r"
    using nested_scan_returns by blast
  have w: "\<exists>a\<in>set (walked nested_call nested_ancestors).
         is_function_like (fst a) \<and> node_async (fst a)"
    using nested_some_async by (simp add: nested_walked)
  with async_flag_any_enclosing_function [OF r] have "isAsyncCall r" by simp
  with r w show ?thesis by blast
qed

section \<open>graphParser.js: zones, routes and import resolution\<close>

text \<open>\<open>s.replace(/\\/g, '/')\<close>\<close>

definition slashes :: "string \<Rightarrow> string" where
  "slashes s = map (\<lambda>c. if c = CHR 0x5C then CHR ''/'' else c) s"

text \<open>\<open>s.replace(/(a|b|...)$/, '')\<close>: the leftmost position from which the rest of
  the string is one of the alternatives is cut off.\<close>

fun strip_end :: "string list \<Rightarrow> string \<Rightarrow> string" where
  "strip_end alts [] = []"
| "strip_end alts (c # cs) = (if c # cs \<in> set alts then [] else c # strip_end alts cs)"

text \<open>\<open>s.split(sep)[1]\<close>, \<open>None\<close> for \<open>undefined\<close>.\<close>

definition second_piece :: "string \<Rightarrow> string \<Rightarrow> string option" where
  "second_piece sep s = (case js_split sep s of _ # b # _ \<Rightarrow> Some b | _ \<Rightarrow> None)"

text \<open>ASCII letters of \<open>s.toUpperCase()\<close>; characters outside ASCII are left as they
  are.\<close>

definition upper_char :: "char \<Rightarrow> char" where
  "upper_char c =
     (case map_of (zip ''abcdefghijklmnopqrstuvwxyz'' ''ABCDEFGHIJKLMNOPQRSTUVWXYZ'') c of
        Some u \<Rightarrow> u
      | None \<Rightarrow> c)"

definition toUpperCase :: "string \<Rightarrow> string" where
  "toUpperCase s = map upper_char s"

definition getArchitecturalZone :: "env \<Rightarrow> string \<Rightarrow> string \<Rightarrow> string" where
  "getArchitecturalZone env filePath projectRoot =
     (let relPath = slashes (path_relative env projectRoot filePath)
      in if js_includes ''src/routes'' relPath \<or> js_includes ''app/api'' relPath
            \<or> js_includes ''pages/api'' relPath then ''API Layer / Route Handlers''
         else if js_includes ''src/middleware'' relPath \<or> js_includes ''middleware'' relPath
           then ''Middleware''
         else if js_includes ''src/lib/db'' relPath \<or> js_includes ''lib/db'' relPath
           then ''Database Access Layer''
         else if js_includes ''src/lib/auth'' relPath \<or> js_includes ''lib/auth'' relPath
           then ''Authentication Layer''
         else if js_includes ''src/components'' relPath \<or> js_includes ''components'' relPath
            \<or> js_includes ''app'' relPath \<or> js_includes ''pages'' relPath
           then ''UI Component Layer''
         else if js_includes ''src/utils'' relPath \<or> js_includes ''utils'' relPath
           then ''Utility / Shared Logic''
         else if js_includes ''src/services'' relPath \<or> js_includes ''services'' relPath
           then ''Service / Business Logic Layer''
         else if js_includes ''src/workers'' relPath \<or> js_includes ''workers'' relPath
           then ''Worker Layer''
         else if prefix ''src'' relPath then ''Application Core''
         else ''Unknown Zone'')"

definition EXTENSIONS :: "string list" where
  "EXTENSIONS = [''.js'', ''.jsx'', ''.ts'', ''.tsx'', ''.mjs'', ''.cjs'', ''.svelte'']"

text \<open>The three attempts of \<open>resolveImportPath\<close> on one candidate path: with each
  extension appended, as it is, and as a directory with an index file.\<close>

definition try_candidates :: "env \<Rightarrow> string \<Rightarrow> string list \<Rightarrow> string option" where
  "try_candidates env potentialPath allProjectFiles =
     (case find (\<lambda>ext. potentialPath @ ext \<in> set allProjectFiles) EXTENSIONS of
        Some ext \<Rightarrow> Some (potentialPath @ ext)
      | None \<Rightarrow>
          if potentialPath \<in> set allProjectFiles then Some potentialPath
          else (case find (\<lambda>ext. path_join env potentialPath (''index'' @ ext)
                                    \<in> set allProjectFiles) EXTENSIONS of
                  Some ext \<Rightarrow> Some (path_join env potentialPath (''index'' @ ext))
                | None \<Rightarrow> None))"

definition resolveImportPath :: "env \<Rightarrow> string \<Rightarrow> string \<Rightarrow> string list \<Rightarrow> string \<Rightarrow> string option" where
  "resolveImportPath env importerPath importedModule allProjectFiles projectRoot =
     (let relative =
            (if prefix ''.'' importedModule \<or> prefix ''/'' importedModule
             then try_candidates env
                    (path_resolve env [path_dirname env importerPath, importedModule])
                    allProjectFiles
             else None)
      in case relative of
           Some r \<Rightarrow> Some r
         | None \<Rightarrow>
             if list_ex (\<lambda>pre. prefix pre importedModule)
                  [''src/'', ''app/'', ''pages/'', ''lib/'', ''components/'', ''utils/'']
             then try_candidates env (path_join env projectRoot importedModule) allProjectFiles
             else None)"

definition undefined_replace_message :: string where
  "undefined_replace_message = ''Cannot read properties of undefined (reading 'replace')''"

text \<open>One branch of \<open>getRouteInfo\<close>: the piece after the first occurrence of
  \<open>marker\<close>, without the ending \<open>alts\<close> and without a final slash, behind a slash.
  When \<open>marker\<close> does not occur, \<open>split(marker)[1]\<close> is \<open>undefined\<close> and calling
  \<open>replace\<close> on it throws a TypeError (\<open>Inl\<close>).\<close>

definition route_after :: "string \<Rightarrow> string list \<Rightarrow> string \<Rightarrow> string \<Rightarrow> string + string option" where
  "route_after marker alts fallback relPath =
     (case second_piece marker relPath of
        None \<Rightarrow> Inl undefined_replace_message
      | Some parts \<Rightarrow>
          Inr (Some (js_or (Some (''/'' @ strip_end [''/''] (strip_end alts parts))) fallback)))"

definition endings :: "string \<Rightarrow> string list \<Rightarrow> string list \<Rightarrow> string list" where
  "endings pre names exts = concat (map (\<lambda>n. map (\<lambda>e. pre @ n @ ''.'' @ e) exts) names)"

definition getRouteInfo :: "env \<Rightarrow> string \<Rightarrow> string \<Rightarrow> string + string option" where
  "getRouteInfo env filePath projectRoot =
     (let relPath = slashes (path_relative env projectRoot filePath)
      in if js_includes ''src/routes'' relPath
         then route_after ''src/routes/''
                (endings ''/+'' [''server'', ''page'', ''layout'']
                   [''js'', ''ts'', ''jsx'', ''tsx'', ''svelte'']) ''/'' relPath
         else if js_includes ''app/api'' relPath
         then route_after ''app/api/''
                (endings ''/'' [''route''] [''js'', ''ts'', ''jsx'', ''tsx'']) ''/api/'' relPath
         else if js_includes ''pages/api'' relPath
         then route_after ''pages/api/''
                (endings [] [[]] [''js'', ''ts'', ''jsx'', ''tsx'']) ''/api/'' relPath
         else if js_includes ''app'' relPath
         then route_after ''app/''
                (endings ''/'' [''page'', ''layout'', ''loading'', ''error'']
                   [''js'', ''ts'', ''jsx'', ''tsx'']) ''/'' relPath
         else if js_includes ''pages'' relPath
         then route_after ''pages/''
                (endings [] [[]] [''js'', ''ts'', ''jsx'', ''tsx'']) ''/'' relPath
         else Inr None)"

section \<open>graphParser.js: parseToGraph\<close>

text \<open>
  The state of a run: the graph under construction and the three collections
  \<open>allProjectFiles\<close> (a Set), \<open>fileToRelPathMap\<close> (a Map) and \<open>processedFiles\<close> (a
  Set).
\<close>

record pstate = graph +
  allProjectFiles :: "string list"
  fileToRelPathMap :: "(string \<times> string) list"
  processedFiles :: "string list"

text \<open>
  The directory tree that \<open>fs.readdirSync\<close> reports: a file (anything that is not a
  directory), a directory with its entries, or a directory whose listing fails.
\<close>

datatype dirent = FileEntry string | DirEntry string "dirent list" | UnreadableDir string

definition excluded_dirs :: "string list" where
  "excluded_dirs = [''node_modules'', ''.git'', ''dist'', ''.svelte-kit'']"

text \<open>\<open>name.match(/\.(js|ts|jsx|tsx|svelte|mjs|cjs)$/)\<close>\<close>

definition source_name :: "string \<Rightarrow> bool" where
  "source_name name =
     list_ex (\<lambda>e. suffix e name)
       [''.js'', ''.ts'', ''.jsx'', ''.tsx'', ''.svelte'', ''.mjs'', ''.cjs'']"

text \<open>The loop of \<open>collectFiles(dir)\<close> over the entries of \<open>dir\<close>, on
  (allProjectFiles, fileToRelPathMap); \<open>Inl\<close> when a listing throws.\<close>

fun collectFiles :: "env \<Rightarrow> string \<Rightarrow> string \<Rightarrow> dirent list
    \<Rightarrow> string list \<times> (string \<times> string) list
    \<Rightarrow> string + string list \<times> (string \<times> string) list" where
  "collectFiles env projectRoot dir [] acc = Inr acc"
| "collectFiles env projectRoot dir (FileEntry name # rest) (files, rels) =
     (if \<not> source_name name then collectFiles env projectRoot dir rest (files, rels)
      else let fullPath = path_join env dir name
           in collectFiles env projectRoot dir rest
                (set_add fullPath files,
                 AList.update fullPath (path_relative env projectRoot fullPath) rels))"
| "collectFiles env projectRoot dir (DirEntry name sub # rest) acc =
     (if name \<in> set excluded_dirs then collectFiles env projectRoot dir rest acc
      else case collectFiles env projectRoot (path_join env dir name) sub acc of
             Inl msg \<Rightarrow> Inl msg
           | Inr acc' \<Rightarrow> collectFiles env projectRoot dir rest acc')"
| "collectFiles env projectRoot dir (UnreadableDir name # rest) acc =
     (if name \<in> set excluded_dirs then collectFiles env projectRoot dir rest acc
      else Inl (''EACCES: '' @ path_join env dir name))"

text \<open>\<open>collectFiles(projectRoot)\<close> on the directory entry found at the project root
  (its own name is not used).\<close>

definition collect_root :: "env \<Rightarrow> string \<Rightarrow> dirent
    \<Rightarrow> string + string list \<times> (string \<times> string) list" where
  "collect_root env projectRoot rootdir =
     (case rootdir of
        DirEntry name entries \<Rightarrow> collectFiles env projectRoot projectRoot entries ([], [])
      | FileEntry name \<Rightarrow> Inl (''ENOTDIR: '' @ projectRoot)
      | UnreadableDir name \<Rightarrow> Inl (''EACCES: '' @ projectRoot))"

definition bump_total_files :: "pstate \<Rightarrow> pstate" where
  "bump_total_files st =
     st\<lparr> metadata := (metadata st)\<lparr> total_files := total_files (metadata st) + 1 \<rparr> \<rparr>"

definition bump_unresolved_files :: "pstate \<Rightarrow> pstate" where
  "bump_unresolved_files st =
     st\<lparr> metadata := (metadata st)\<lparr> unresolved_files := unresolved_files (metadata st) + 1 \<rparr> \<rparr>"

definition bump_total_imports :: "pstate \<Rightarrow> pstate" where
  "bump_total_imports st =
     st\<lparr> metadata := (metadata st)\<lparr> total_imports := total_imports (metadata st) + 1 \<rparr> \<rparr>"

definition bump_resolved_imports :: "pstate \<Rightarrow> pstate" where
  "bump_resolved_imports st =
     st\<lparr> metadata := (metadata st)\<lparr> resolved_imports := resolved_imports (metadata st) + 1 \<rparr> \<rparr>"

text \<open>\<open>graph.edges.push(e)\<close> and \<open>graph.nodes[k] = nd\<close>\<close>

definition push_edge :: "edge \<Rightarrow> pstate \<Rightarrow> pstate" where
  "push_edge e st = st\<lparr> edges := edges st @ [e] \<rparr>"

definition set_node :: "string \<Rightarrow> node \<Rightarrow> pstate \<Rightarrow> pstate" where
  "set_node k nd st = st\<lparr> nodes := AList.update k nd (nodes st) \<rparr>"

definition module_node :: "string \<Rightarrow> string \<Rightarrow> node" where
  "module_node relPath zone =
     \<lparr> ntype = ''module'', nid = Some relPath, nname = None, nfile = None, nroute = None,
       nzone = zone, nparameters = None, nreturnType = None, nisAsync = None \<rparr>"

text \<open>
  The start of \<open>processFile\<close>, up to the \<open>try\<close>: the file is marked processed, the
  branch for a falsy \<open>relPath\<close> registers the file again, the file is counted and gets
  its Module node.
\<close>

definition begin_file :: "env \<Rightarrow> string \<Rightarrow> string \<Rightarrow> string \<Rightarrow> pstate \<Rightarrow> pstate" where
  "begin_file env projectRoot fullPath relPath st =
     (let st1 = st\<lparr> processedFiles := set_add fullPath (processedFiles st) \<rparr>;
          st2 = (if relPath = []
                 then st1\<lparr> fileToRelPathMap :=
                            AList.update fullPath (path_relative env projectRoot fullPath)
                              (fileToRelPathMap st1),
                          allProjectFiles := set_add fullPath (allProjectFiles st1) \<rparr>
                 else st1)
      in set_node relPath (module_node relPath (getArchitecturalZone env fullPath projectRoot))
           (bump_total_files st2))"

text \<open>Reading and parsing inside the \<open>try\<close>: a throw of \<open>readFileSync\<close> or of the
  parser, a component file without script content, or the syntax tree.\<close>

datatype loaded = LoadFailed string | NoScript | Loaded ast

definition load_tree :: "env \<Rightarrow> string \<Rightarrow> loaded" where
  "load_tree env fullPath =
     (case readFileSync env fullPath of
        Inl msg \<Rightarrow> LoadFailed msg
      | Inr src \<Rightarrow>
          let code = (if suffix ''.svelte'' fullPath then extractScriptContent src else src)
          in if suffix ''.svelte'' fullPath \<and> js_trim code = [] then NoScript
             else (case parse env code of Inl msg \<Rightarrow> LoadFailed msg | Inr tree \<Rightarrow> Loaded tree))"

text \<open>How a visitor ends: normally, or with a throw that leaves the state as it was at
  the throw.\<close>

datatype 's outcome = Normal 's | Thrown string 's

text \<open>
  The visitors for \<open>ImportDeclaration\<close>, for \<open>ExportNamedDeclaration\<close> with a source and
  for \<open>ExportAllDeclaration\<close>, which differ in the \<open>kind\<close> of the edge only. The result
  is the new state and, in \<open>FULL\<close> mode, the file that the visitor then hands to
  \<open>processFile\<close>.
\<close>

definition handle_source :: "env \<Rightarrow> string \<Rightarrow> string \<Rightarrow> string \<Rightarrow> string \<Rightarrow> string \<Rightarrow> string
    \<Rightarrow> pstate \<Rightarrow> pstate \<times> string option" where
  "handle_source env graphMode projectRoot fullPath relPath kind importedModule st =
     (let st1 = bump_total_imports st
      in case resolveImportPath env fullPath importedModule (allProjectFiles st1) projectRoot of
           None \<Rightarrow>
             (push_edge \<lparr> efrom = relPath, eto = Some importedModule, etype = ''dependency'',
                          ekind = Some (kind @ ''_external''), callPath = None \<rparr> st1, None)
         | Some resolvedAbsPath \<Rightarrow>
             if resolvedAbsPath = []
             then (push_edge \<lparr> efrom = relPath, eto = Some importedModule,
                               etype = ''dependency'', ekind = Some (kind @ ''_external''),
                               callPath = None \<rparr> st1, None)
             else (case map_of (fileToRelPathMap st1) resolvedAbsPath of
                     None \<Rightarrow> (st1, None)
                   | Some relResolvedPath \<Rightarrow>
                       if relResolvedPath = [] then (st1, None)
                       else
                         let st2 = push_edge \<lparr> efrom = relPath, eto = Some relResolvedPath,
                                     etype = ''dependency'', ekind = Some kind,
                                     callPath = None \<rparr> (bump_resolved_imports st1)
                         in (st2,
                             if graphMode = ''FULL''
                                \<and> resolvedAbsPath \<notin> set (processedFiles st2)
                             then Some resolvedAbsPath else None)))"

text \<open>The name of a function-like node, by priority; \<open>Inl\<close> when the parent path is
  missing where the code reads \<open>p.parentPath.node\<close>. \<open>None\<close> is a name that stays
  \<open>null\<close> or is \<open>undefined\<close>.\<close>

definition identifier_name :: "ast \<Rightarrow> string option" where
  "identifier_name n = (case n of Identifier x \<Rightarrow> Some x | _ \<Rightarrow> None)"

definition is_identifier :: "ast \<Rightarrow> bool" where
  "is_identifier n = (case n of Identifier x \<Rightarrow> True | _ \<Rightarrow> False)"

definition function_name :: "ast \<Rightarrow> ast option \<Rightarrow> string + string option" where
  "function_name n parent =
     (case (case n of FunctionDeclaration (Some i) _ _ _ \<Rightarrow> Some i | _ \<Rightarrow> None) of
        Some i \<Rightarrow> Inr (identifier_name i)
      | None \<Rightarrow>
          (case parent of
             None \<Rightarrow> Inl null_node_message
           | Some pn \<Rightarrow>
               (case pn of
                  VariableDeclarator i init \<Rightarrow>
                    if is_identifier i then Inr (identifier_name i)
                    else (case n of ObjectMethod k _ _ _ \<Rightarrow> Inr (identifier_name k)
                          | _ \<Rightarrow> Inr None)
                | ObjectProperty k v \<Rightarrow>
                    if is_identifier k then Inr (identifier_name k)
                    else (case n of ObjectMethod k' _ _ _ \<Rightarrow> Inr (identifier_name k')
                          | _ \<Rightarrow> Inr None)
                | _ \<Rightarrow>
                    (case n of ObjectMethod k _ _ _ \<Rightarrow> Inr (identifier_name k)
                     | _ \<Rightarrow> Inr None))))"

text \<open>\<open>p.node.params\<close>, \<open>p.node.async\<close> and the display form of a parameter.\<close>

definition node_params :: "ast \<Rightarrow> ast list" where
  "node_params n =
     (case n of FunctionDeclaration _ _ ps _ \<Rightarrow> ps | FunctionExpression _ _ ps _ \<Rightarrow> ps
      | ArrowFunctionExpression _ ps _ \<Rightarrow> ps | ObjectMethod _ _ ps _ \<Rightarrow> ps | _ \<Rightarrow> [])"

definition param_display :: "ast \<Rightarrow> string" where
  "param_display param =
     (case param of
        Identifier x \<Rightarrow> x
      | AssignmentPattern l r \<Rightarrow> (case l of Identifier x \<Rightarrow> x | _ \<Rightarrow> ''unknown'')
      | RestElement a \<Rightarrow> (case a of Identifier x \<Rightarrow> ''...'' @ x | _ \<Rightarrow> ''unknown'')
      | _ \<Rightarrow> ''unknown'')"

definition http_methods :: "string list" where
  "http_methods = [''GET'', ''POST'', ''PUT'', ''DELETE'', ''PATCH'', ''HEAD'', ''OPTIONS'']"

definition function_node :: "env \<Rightarrow> string \<Rightarrow> string \<Rightarrow> string \<Rightarrow> string \<Rightarrow> ast \<Rightarrow> node" where
  "function_node env projectRoot fullPath relPath name n =
     \<lparr> ntype = ''function'', nid = None, nname = Some name, nfile = Some relPath,
       nroute = None, nzone = getArchitecturalZone env fullPath projectRoot,
       nparameters = Some (map param_display (node_params n)),
       nreturnType = Some ''any'', nisAsync = Some (node_async n) \<rparr>"

definition api_node :: "env \<Rightarrow> string \<Rightarrow> string \<Rightarrow> string \<Rightarrow> string \<Rightarrow> string \<Rightarrow> ast \<Rightarrow> node" where
  "api_node env projectRoot fullPath relPath name route n =
     \<lparr> ntype = ''api'', nid = None, nname = Some (toUpperCase name), nfile = Some relPath,
       nroute = Some route, nzone = getArchitecturalZone env fullPath projectRoot,
       nparameters = Some (map param_display (node_params n)),
       nreturnType = Some ''any'', nisAsync = Some (node_async n) \<rparr>"

text \<open>\<open>p.traverse({CallExpression})\<close>: one \<open>call\<close> edge for every call expression
  below the node, in pre-order, whose callee has a non-empty name.\<close>

definition call_edge :: "string \<Rightarrow> ast \<Rightarrow> edge list" where
  "call_edge nodeId n =
     (case n of
        CallExpression callee args loc \<Rightarrow>
          (case callee_name callee of
             None \<Rightarrow> []
           | Some calleeName \<Rightarrow>
               if calleeName = [] then []
               else [\<lparr> efrom = nodeId, eto = Some calleeName, etype = ''dependency'',
                       ekind = Some ''call'', callPath = loc \<rparr>])
      | _ \<Rightarrow> [])"

definition call_edges :: "string \<Rightarrow> ast \<Rightarrow> edge list" where
  "call_edges nodeId n = concat (map (\<lambda>p. call_edge nodeId (fst p)) (tl (paths_from [] [] n)))"

text \<open>What the function visitor does once the node has its identifier: the node is
  stored, the structural edge and the call edges are pushed.\<close>

definition add_function :: "string \<Rightarrow> string \<Rightarrow> node \<Rightarrow> ast \<Rightarrow> pstate \<Rightarrow> pstate" where
  "add_function relPath nodeId nd n st =
     (let st1 = set_node nodeId nd st;
          st2 = push_edge \<lparr> efrom = relPath, eto = Some nodeId, etype = ''structural'',
                            ekind = None, callPath = None \<rparr> st1
      in st2\<lparr> edges := edges st2 @ call_edges nodeId n \<rparr>)"

text \<open>The last resort for a name: the property name of an assignment target, as in
  \<open>obj.prop = function () {}\<close>, read from the parent node.\<close>

definition assigned_property :: "ast \<Rightarrow> string option" where
  "assigned_property pn =
     (case pn of
        AssignmentExpression l r \<Rightarrow>
          (case l of MemberExpression ob pr \<Rightarrow> identifier_name pr | _ \<Rightarrow> None)
      | _ \<Rightarrow> None)"

text \<open>The visitor for function declarations, arrow functions, function expressions
  and object methods.\<close>

definition handle_function :: "env \<Rightarrow> string \<Rightarrow> string \<Rightarrow> string \<Rightarrow> ast \<Rightarrow> ast option
    \<Rightarrow> pstate \<Rightarrow> pstate outcome" where
  "handle_function env projectRoot fullPath relPath n parent st =
     (case function_name n parent of
        Inl msg \<Rightarrow> Thrown msg st
      | Inr name \<Rightarrow>
          (case getRouteInfo env fullPath projectRoot of
             Inl msg \<Rightarrow> Thrown msg st
           | Inr route \<Rightarrow>
               let named = (case name of Some x \<Rightarrow> x \<noteq> [] | None \<Rightarrow> False);
                   routed = (case route of Some r \<Rightarrow> r \<noteq> [] | None \<Rightarrow> False);
                   isApi = (named \<and> routed \<and> toUpperCase (the name) \<in> set http_methods)
               in if isApi
                  then Normal (add_function relPath (toUpperCase (the name) @ '' '' @ the route)
                                 (api_node env projectRoot fullPath relPath (the name) (the route) n)
                                 n st)
                  else if named
                  then Normal (add_function relPath (relPath @ ''::'' @ the name)
                                 (function_node env projectRoot fullPath relPath (the name) n)
                                 n st)
                  else (case parent of
                          None \<Rightarrow> Thrown null_node_message st
                        | Some pn \<Rightarrow>
                            (case assigned_property pn of
                               Some x \<Rightarrow>
                                 Normal (add_function relPath (relPath @ ''::'' @ x)
                                           (function_node env projectRoot fullPath relPath x n)
                                           n st)
                             | None \<Rightarrow> Normal st))))"

text \<open>The visitors at one path of the main traversal.\<close>

definition enter_path :: "env \<Rightarrow> string \<Rightarrow> string \<Rightarrow> string \<Rightarrow> string \<Rightarrow> nodepath \<Rightarrow> pstate
    \<Rightarrow> pstate outcome \<times> string option" where
  "enter_path env graphMode projectRoot fullPath relPath p st =
     (case p of (n, pos, ancestors) \<Rightarrow>
        (case n of
           ImportDeclaration specs src \<Rightarrow>
             (case handle_source env graphMode projectRoot fullPath relPath ''import'' src st of
                (st', next) \<Rightarrow> (Normal st', next))
         | ExportNamedDeclaration d specs src \<Rightarrow>
             (case src of
                None \<Rightarrow> (Normal st, None)
              | Some s \<Rightarrow>
                  (case handle_source env graphMode projectRoot fullPath relPath ''re_export'' s st of
                     (st', next) \<Rightarrow> (Normal st', next)))
         | ExportAllDeclaration src \<Rightarrow>
             (case handle_source env graphMode projectRoot fullPath relPath ''barrel_export'' src st of
                (st', next) \<Rightarrow> (Normal st', next))
         | _ \<Rightarrow>
             if is_function_like n
             then (handle_function env projectRoot fullPath relPath n
                     (case ancestors of [] \<Rightarrow> None | a # _ \<Rightarrow> Some (fst a)) st, None)
             else (Normal st, None)))"

text \<open>
  \<open>processFile\<close> and the main traversal \<open>babelTraverse(ast, visitors)\<close>, a loop
  over the paths of the tree in pre-order. In \<open>FULL\<close> mode a visitor calls
  \<open>processFile\<close> again, so the two are mutually recursive; the natural number bounds the
  depth of these nested calls. The result \<open>None\<close> stands for a run the model does not
  follow: the bound is used up, or \<open>fullPath\<close> has no entry in \<open>fileToRelPathMap\<close>
  (\<open>relPath\<close> would be \<open>undefined\<close>). Theorem \<open>parseToGraph_returns\<close> shows that
  \<open>parseToGraph\<close> never meets either.
\<close>

fun processFile :: "env \<Rightarrow> string \<Rightarrow> string \<Rightarrow> nat \<Rightarrow> string \<Rightarrow> pstate \<Rightarrow> pstate option"
  and visit_paths :: "env \<Rightarrow> string \<Rightarrow> string \<Rightarrow> nat \<Rightarrow> string \<Rightarrow> string \<Rightarrow> nodepath list
    \<Rightarrow> pstate \<Rightarrow> pstate outcome option" where
  "processFile env graphMode projectRoot 0 fullPath st =
     (if fullPath \<in> set (processedFiles st) then Some st else None)"
| "processFile env graphMode projectRoot (Suc k) fullPath st =
     (if fullPath \<in> set (processedFiles st) then Some st
      else case map_of (fileToRelPathMap st) fullPath of
        None \<Rightarrow> None
      | Some relPath \<Rightarrow>
          let st1 = begin_file env projectRoot fullPath relPath st
          in case load_tree env fullPath of
               LoadFailed msg \<Rightarrow> Some (bump_unresolved_files st1)
             | NoScript \<Rightarrow> Some st1
             | Loaded tree \<Rightarrow>
                 (case visit_paths env graphMode projectRoot k fullPath relPath
                         (paths_from [] [] tree) st1 of
                    None \<Rightarrow> None
                  | Some (Normal st2) \<Rightarrow> Some st2
                  | Some (Thrown msg st2) \<Rightarrow> Some (bump_unresolved_files st2)))"
| "visit_paths env graphMode projectRoot k fullPath relPath [] st = Some (Normal st)"
| "visit_paths env graphMode projectRoot k fullPath relPath (p # ps) st =
     (case enter_path env graphMode projectRoot fullPath relPath p st of
        (Thrown msg st', next) \<Rightarrow> Some (Thrown msg st')
      | (Normal st', None) \<Rightarrow> visit_paths env graphMode projectRoot k fullPath relPath ps st'
      | (Normal st', Some resolvedAbsPath) \<Rightarrow>
          (case processFile env graphMode projectRoot k resolvedAbsPath st' of
             None \<Rightarrow> None
           | Some st'' \<Rightarrow> visit_paths env graphMode projectRoot k fullPath relPath ps st''))"

text \<open>The loop \<open>for (const filePath of allProjectFiles) processFile(filePath)\<close>.
  \<open>processFile\<close> adds to \<open>allProjectFiles\<close> only a path that is in it already, so
  the loop runs over the files that \<open>collectFiles\<close> found.\<close>

fun process_all :: "env \<Rightarrow> string \<Rightarrow> string \<Rightarrow> nat \<Rightarrow> string list \<Rightarrow> pstate \<Rightarrow> pstate option" where
  "process_all env graphMode projectRoot k [] st = Some st"
| "process_all env graphMode projectRoot k (f # fs) st =
     (case processFile env graphMode projectRoot k f st of
        None \<Rightarrow> None
      | Some st' \<Rightarrow> process_all env graphMode projectRoot k fs st')"

subsection \<open>The post-pass: maximal depth and indirect nodes\<close>

type_synonym adjList = "(string \<times> string option list) list"

definition build_adjList :: "edge list \<Rightarrow> adjList" where
  "build_adjList es =
     foldl (\<lambda>a e. AList.update (efrom e)
                     ((case map_of a (efrom e) of None \<Rightarrow> [] | Some l \<Rightarrow> l) @ [eto e]) a)
       [] es"

text \<open>\<open>adjList.get(id)\<close> when \<open>adjList.has(id)\<close>; an identifier is a \<open>to\<close> of an
  edge or a key of \<open>graph.nodes\<close>.\<close>

definition neighbors :: "adjList \<Rightarrow> string option \<Rightarrow> string option list" where
  "neighbors a i =
     (case i of None \<Rightarrow> []
      | Some k \<Rightarrow> (case map_of a k of None \<Rightarrow> [] | Some l \<Rightarrow> l))"

type_synonym depth_state = "nat \<times> nat \<times> string option set \<times> (string option \<times> nat) list"

text \<open>The loop \<open>for (const neighbor of adjList.get(id))\<close> on (maxDepth,
  indirectNodes, visitedNodes, queue).\<close>

fun visit_neighbors :: "nat \<Rightarrow> string option list \<Rightarrow> depth_state \<Rightarrow> depth_state" where
  "visit_neighbors depth [] st = st"
| "visit_neighbors depth (x # xs) (maxDepth, indirectNodes, visitedNodes, queue) =
     (if x \<notin> visitedNodes
      then visit_neighbors depth xs
             (maxDepth, (if depth + 1 > 1 then indirectNodes + 1 else indirectNodes),
              insert x visitedNodes, queue @ [(x, depth + 1)])
      else visit_neighbors depth xs (maxDepth, indirectNodes, visitedNodes, queue))"

definition all_neighbors :: "adjList \<Rightarrow> string option set" where
  "all_neighbors a = (\<Union>kv \<in> set a. set (snd kv))"

lemma neighbors_subset: "set (neighbors a i) \<subseteq> all_neighbors a"
proof (cases i)
  case None
  then show ?thesis by (simp add: neighbors_def)
next
  case (Some k)
  show ?thesis
  proof (cases "map_of a k")
    case None
    with Some show ?thesis by (simp add: neighbors_def)
  next
    case (Some l)
    then have "(k, l) \<in> set a" by (rule map_of_SomeD)
    then have "set l \<subseteq> all_neighbors a" by (force simp: all_neighbors_def)
    with Some \<open>i = Some k\<close> show ?thesis by (simp add: neighbors_def)
  qed
qed

lemma visit_neighbors_visited:
  "fst (snd (snd (visit_neighbors d xs (m, i, V, Q)))) = V \<union> set xs"
  by (induction xs arbitrary: m i V Q) auto

lemma visit_neighbors_queue:
  "set xs \<subseteq> V \<Longrightarrow> snd (snd (snd (visit_neighbors d xs (m, i, V, Q)))) = Q"
  by (induction xs arbitrary: m i V Q) auto

function depth_loop :: "adjList \<Rightarrow> depth_state \<Rightarrow> nat \<times> nat" where
  "depth_loop a (maxDepth, indirectNodes, visitedNodes, []) = (maxDepth, indirectNodes)"
| "depth_loop a (maxDepth, indirectNodes, visitedNodes, (i, depth) # queue) =
     depth_loop a (visit_neighbors depth (neighbors a i)
                     (max maxDepth depth, indirectNodes, visitedNodes, queue))"
  by pat_completeness auto
termination
proof (relation "inv_image (less_than <*lex*> less_than)
          (\<lambda>(a, (m, n, V, Q)). (card (all_neighbors a - V), length Q))")
  show "wf (inv_image (less_than <*lex*> less_than)
          (\<lambda>(a, (m, n, V, Q)). (card (all_neighbors a - V), length Q)))"
    by (intro wf_inv_image wf_lex_prod wf_less_than)
next
  fix a :: adjList and maxDepth indirectNodes :: nat and visitedNodes :: "string option set"
    and i :: "string option" and depth :: nat and queue :: "(string option \<times> nat) list"
  let ?xs = "neighbors a i"
  let ?r = "visit_neighbors depth ?xs (max maxDepth depth, indirectNodes, visitedNodes, queue)"
  obtain m' n' V' Q' where r: "?r = (m', n', V', Q')" by (cases ?r) auto
  have V': "V' = visitedNodes \<union> set ?xs"
    using visit_neighbors_visited [of depth ?xs "max maxDepth depth" indirectNodes visitedNodes queue] r
    by simp
  have fin: "finite (all_neighbors a)" by (simp add: all_neighbors_def)
  have "card (all_neighbors a - V') < card (all_neighbors a - visitedNodes)
        \<or> (card (all_neighbors a - V') = card (all_neighbors a - visitedNodes) \<and> length Q' < Suc (length queue))"
  proof (cases "set ?xs \<subseteq> visitedNodes")
    case True
    then have "Q' = queue"
      using visit_neighbors_queue [of ?xs visitedNodes depth "max maxDepth depth" indirectNodes queue] r
      by simp
    moreover from True V' have "V' = visitedNodes" by auto
    ultimately show ?thesis by simp
  next
    case False
    then obtain x where "x \<in> set ?xs" "x \<notin> visitedNodes" by auto
    then have "all_neighbors a - V' \<subset> all_neighbors a - visitedNodes"
      using V' neighbors_subset [of a i] by blast
    then have "card (all_neighbors a - V') < card (all_neighbors a - visitedNodes)"
      by (intro psubset_card_mono) (simp_all add: fin)
    then show ?thesis by simp
  qed
  then show "((a, ?r), (a, maxDepth, indirectNodes, visitedNodes, (i, depth) # queue))
        \<in> inv_image (less_than <*lex*> less_than)
            (\<lambda>(a, (m, n, V, Q)). (card (all_neighbors a - V), length Q))"
    using r by auto
qed

text \<open>The Module nodes among \<open>rootNodes\<close>, in the order of \<open>Object.keys\<close>.\<close>

definition root_modules :: "graph \<Rightarrow> string list" where
  "root_modules g =
     (let allTargets = set (map eto (edges g));
          rootNodes = filter (\<lambda>nodeId. Some nodeId \<notin> allTargets
                                 \<or> map_option ntype (map_of (nodes g) nodeId) = Some ''module'')
                        (map fst (nodes g))
      in filter (\<lambda>nodeId. map_option ntype (map_of (nodes g) nodeId) = Some ''module'')
           rootNodes)"

definition reachability_metrics :: "string \<Rightarrow> graph \<Rightarrow> graph" where
  "reachability_metrics graphMode g =
     (let roots = root_modules g;
          (maxDepth, indirectNodes) =
             depth_loop (build_adjList (edges g))
               (0, 0, set (map Some roots), map (\<lambda>nodeId. (Some nodeId, 0)) roots)
      in g\<lparr> metadata := (metadata g)\<lparr>
              max_depth_detected := maxDepth,
              indirect_nodes_found := indirectNodes,
              analysis_limit_reached := (graphMode = ''FAST'' \<and> maxDepth = 1) \<rparr> \<rparr>)"

definition empty_metadata :: metadata where
  "empty_metadata =
     \<lparr> unresolved_files = 0, total_files = 0, total_imports = 0, resolved_imports = 0,
       max_depth_detected = 0, indirect_nodes_found = 0, analysis_limit_reached = False \<rparr>"

definition initial_state :: "string list \<Rightarrow> (string \<times> string) list \<Rightarrow> pstate" where
  "initial_state files rels =
     \<lparr> nodes = [], edges = [], metadata = empty_metadata,
       allProjectFiles = files, fileToRelPathMap = rels, processedFiles = [] \<rparr>"

text \<open>
  \<open>parseToGraph(targetPath, graphMode)\<close> on the directory found at the project root.
  \<open>Some (Inl msg)\<close> is the throw of a directory listing, \<open>Some (Inr g)\<close> the
  returned graph. The bound on nested \<open>processFile\<close> calls is the number of collected
  files.
\<close>

definition parseToGraph :: "env \<Rightarrow> string \<Rightarrow> string \<Rightarrow> dirent \<Rightarrow> (string + graph) option" where
  "parseToGraph env targetPath graphMode rootdir =
     (let projectRoot = path_resolve env [targetPath]
      in case collect_root env projectRoot rootdir of
           Inl msg \<Rightarrow> Some (Inl msg)
         | Inr (files, rels) \<Rightarrow>
             (case process_all env graphMode projectRoot (length files) files
                     (initial_state files rels) of
                None \<Rightarrow> None
              | Some st \<Rightarrow> Some (Inr (reachability_metrics graphMode (graph.truncate st)))))"

section \<open>A POSIX model of the path module, for concrete runs\<close>

text \<open>
  The theorems about the builder hold for every implementation of \<open>path.join\<close>,
  \<open>path.resolve\<close>, \<open>path.relative\<close> and \<open>path.dirname\<close>. The concrete runs use the
  following model of Node's POSIX implementation, with the working directory \<open>cwd\<close>
  absolute.
\<close>

text \<open>\<open>normalizeString\<close>: the segments of a path without empty and \<open>.\<close> segments,
  \<open>..\<close> taking the segment before it away; \<open>acc\<close> holds the result reversed.\<close>

fun norm_segments :: "bool \<Rightarrow> string list \<Rightarrow> string list \<Rightarrow> string list" where
  "norm_segments up acc [] = rev acc"
| "norm_segments up acc (s # ss) =
     (if s = [] \<or> s = ''.'' then norm_segments up acc ss
      else if s = ''..''
      then (case acc of
              [] \<Rightarrow> norm_segments up (if up then [''..''] else []) ss
            | t # ts \<Rightarrow>
                if t = ''..'' then norm_segments up (''..'' # acc) ss
                else norm_segments up ts ss)
      else norm_segments up (s # acc) ss)"

definition is_absolute :: "string \<Rightarrow> bool" where
  "is_absolute p = prefix ''/'' p"

definition posix_normalize :: "string \<Rightarrow> string" where
  "posix_normalize p =
     (if p = [] then ''.''
      else let segs = norm_segments (\<not> is_absolute p) [] (js_split ''/'' p);
               body = js_join ''/'' segs;
               body' = (if body \<noteq> [] \<and> suffix ''/'' p then body @ ''/'' else body)
           in if is_absolute p then ''/'' @ body'
              else if body' = [] then ''.'' else body')"

definition posix_join :: "string \<Rightarrow> string \<Rightarrow> string" where
  "posix_join a b =
     (let joined = js_join ''/'' (filter (\<lambda>s. s \<noteq> []) [a, b])
      in if joined = [] then ''.'' else posix_normalize joined)"

definition posix_resolve :: "string \<Rightarrow> string list \<Rightarrow> string" where
  "posix_resolve cwd paths =
     (let p = foldl (\<lambda>acc x. if x = [] then acc else if is_absolute x then x
                              else acc @ ''/'' @ x) cwd paths
      in ''/'' @ js_join ''/'' (norm_segments False [] (js_split ''/'' p)))"

fun drop_common :: "string list \<Rightarrow> string list \<Rightarrow> string list \<times> string list" where
  "drop_common (x # xs) (y # ys) = (if x = y then drop_common xs ys else (x # xs, y # ys))"
| "drop_common xs ys = (xs, ys)"

definition posix_relative :: "string \<Rightarrow> string \<Rightarrow> string \<Rightarrow> string" where
  "posix_relative cwd from to =
     (let f = norm_segments False [] (js_split ''/'' (posix_resolve cwd [from]));
          t = norm_segments False [] (js_split ''/'' (posix_resolve cwd [to]))
      in case drop_common f t of
           (f', t') \<Rightarrow> js_join ''/'' (map (\<lambda>s. ''..'') f' @ t'))"

definition posix_dirname :: "string \<Rightarrow> string" where
  "posix_dirname p =
     (if p = [] then ''.''
      else let q = rev (dropWhile (\<lambda>c. c = CHR ''/'') (rev p))
           in if q = [] then ''/''
              else if CHR ''/'' \<notin> set q then ''.''
              else let d = rev (dropWhile (\<lambda>c. c = CHR ''/'')
                                  (dropWhile (\<lambda>c. c \<noteq> CHR ''/'') (rev q)))
                   in if d = [] then ''/'' else d)"

text \<open>The environment with these path functions, the files \<open>files\<close> (path and
  text) and the parser \<open>parser\<close>.\<close>

definition posix_env :: "string \<Rightarrow> (string \<times> string) list \<Rightarrow> (string \<Rightarrow> string + ast) \<Rightarrow> env" where
  "posix_env cwd files parser =
     \<lparr> existsSync = (\<lambda>p. map_of files p \<noteq> None),
       readFileSync = (\<lambda>p. case map_of files p of
                               None \<Rightarrow> Inl (''ENOENT: no such file or directory, open '' @ p)
                             | Some s \<Rightarrow> Inr s),
       parse = parser,
       path_join = posix_join,
       path_resolve = posix_resolve cwd,
       path_relative = posix_relative cwd,
       path_dirname = posix_dirname \<rparr>"

lemma posix_resolve_example: "posix_resolve ''/'' [posix_dirname ''/proj/b.js'', ''./a.js''] = ''/proj/a.js''"
  by (simp add: posix_resolve_def posix_dirname_def js_split_def is_absolute_def)

lemma posix_join_example: "posix_join ''/proj'' ''a.js'' = ''/proj/a.js''"
  by (simp add: posix_join_def posix_normalize_def js_split_def is_absolute_def suffix_to_prefix)

lemma posix_relative_example: "posix_relative ''/'' ''/proj'' ''/proj/src/a.js'' = ''src/a.js''"
  by (simp add: posix_relative_def posix_resolve_def js_split_def is_absolute_def)

lemma posix_relative_up_example: "posix_relative ''/'' ''/proj/x'' ''/proj/src/a.js'' = ''../src/a.js''"
  by (simp add: posix_relative_def posix_resolve_def js_split_def is_absolute_def)

section \<open>The end-to-end scenario\<close>

text \<open>The project \<open>/proj\<close> with the two files of the scenario and the syntax trees the
  parser gives for them.\<close>

definition a_src :: string where
  "a_src = ''export function foo() {}''"

definition b_src :: string where
  "b_src = ''import { foo } from './a.js'; function bar() { foo(); }''"

definition a_tree :: ast where
  "a_tree =
     Other ''File'' [Other ''Program''
       [ExportNamedDeclaration
          (Some (FunctionDeclaration (Some (Identifier ''foo'')) False []
                   (Other ''BlockStatement'' [])))
          [] None]]"

definition b_tree :: ast where
  "b_tree =
     Other ''File'' [Other ''Program''
       [ImportDeclaration [Other ''ImportSpecifier'' [Identifier ''foo'', Identifier ''foo'']]
          ''./a.js'',
        FunctionDeclaration (Some (Identifier ''bar'')) False []
          (Other ''BlockStatement'' [Other ''ExpressionStatement''
             [CallExpression (Identifier ''foo'') [] (Some (1, 47))]])]]"

definition scenario_parser :: "string \<Rightarrow> string + ast" where
  "scenario_parser s =
     (if s = a_src then Inr a_tree else if s = b_src then Inr b_tree
      else Inl ''Unexpected token'')"

definition scenario_env :: env where
  "scenario_env =
     posix_env ''/'' [(''/proj/a.js'', a_src), (''/proj/b.js'', b_src)] scenario_parser"

definition scenario_root :: dirent where
  "scenario_root = DirEntry ''proj'' [FileEntry ''a.js'', FileEntry ''b.js'']"

lemmas posix_defs = posix_env_def posix_join_def posix_normalize_def posix_resolve_def
  posix_relative_def posix_dirname_def is_absolute_def js_split_def suffix_to_prefix

lemma scenario_collect:
  "collect_root scenario_env ''/proj'' scenario_root =
     Inr ([''/proj/a.js'', ''/proj/b.js''], [(''/proj/a.js'', ''a.js''), (''/proj/b.js'', ''b.js'')])"
  by (simp add: collect_root_def scenario_root_def scenario_env_def posix_defs source_name_def
      set_add_def Let_def)

definition scenario_graph :: graph where
  "scenario_graph =
     \<lparr> nodes =
         [(''a.js'', module_node ''a.js'' ''Unknown Zone''),
          (''a.js::foo'',
           \<lparr> ntype = ''function'', nid = None, nname = Some ''foo'', nfile = Some ''a.js'',
             nroute = None, nzone = ''Unknown Zone'', nparameters = Some [],
             nreturnType = Some ''any'', nisAsync = Some False \<rparr>),
          (''b.js'', module_node ''b.js'' ''Unknown Zone''),
          (''b.js::bar'',
           \<lparr> ntype = ''function'', nid = None, nname = Some ''bar'', nfile = Some ''b.js'',
             nroute = None, nzone = ''Unknown Zone'', nparameters = Some [],
             nreturnType = Some ''any'', nisAsync = Some False \<rparr>)],
       edges =
         [\<lparr> efrom = ''a.js'', eto = Some ''a.js::foo'', etype = ''structural'',
            ekind = None, callPath = None \<rparr>,
          \<lparr> efrom = ''b.js'', eto = Some ''a.js'', etype = ''dependency'',
            ekind = Some ''import'', callPath = None \<rparr>,
          \<lparr> efrom = ''b.js'', eto = Some ''b.js::bar'', etype = ''structural'',
            ekind = None, callPath = None \<rparr>,
          \<lparr> efrom = ''b.js::bar'', eto = Some ''foo'', etype = ''dependency'',
            ekind = Some ''call'', callPath = Some (1, 47) \<rparr>],
       metadata =
         \<lparr> unresolved_files = 0, total_files = 2, total_imports = 1, resolved_imports = 1,
           max_depth_detected = 2, indirect_nodes_found = 1,
           analysis_limit_reached = False \<rparr> \<rparr>"

lemmas builder_defs = parseToGraph_def initial_state_def empty_metadata_def begin_file_def
  load_tree_def enter_path_def handle_source_def handle_function_def function_name_def
  add_function_def call_edges_def call_edge_def callee_name_def function_node_def api_node_def
  assigned_property_def
  module_node_def set_node_def push_edge_def bump_total_files_def bump_unresolved_files_def
  bump_total_imports_def bump_resolved_imports_def getRouteInfo_def getArchitecturalZone_def
  route_after_def second_piece_def endings_def slashes_def resolveImportPath_def
  try_candidates_def EXTENSIONS_def http_methods_def toUpperCase_def upper_char_def
  identifier_name_def is_identifier_def node_params_def param_display_def
  is_function_like_def node_async_def opt_list_def paths_from.simps set_add_def js_or_def
  graph.truncate_def

lemma scenario_process:
  "process_all scenario_env ''FAST'' ''/proj'' (length [''/proj/a.js'', ''/proj/b.js''])
     [''/proj/a.js'', ''/proj/b.js'']
     (initial_state [''/proj/a.js'', ''/proj/b.js'']
        [(''/proj/a.js'', ''a.js''), (''/proj/b.js'', ''b.js'')])
   = Some \<lparr> nodes = nodes scenario_graph, edges = edges scenario_graph,
            metadata = (metadata scenario_graph)\<lparr> max_depth_detected := 0,
               indirect_nodes_found := 0 \<rparr>,
            allProjectFiles = [''/proj/a.js'', ''/proj/b.js''],
            fileToRelPathMap = [(''/proj/a.js'', ''a.js''), (''/proj/b.js'', ''b.js'')],
            processedFiles = [''/proj/a.js'', ''/proj/b.js''] \<rparr>"
  by (simp add: scenario_graph_def scenario_env_def scenario_parser_def a_src_def
      b_src_def a_tree_def b_tree_def builder_defs posix_defs Let_def)


lemma scenario_parse:
  "parseToGraph scenario_env ''/proj'' ''FAST'' scenario_root = Some (Inr scenario_graph)"
proof -
  have root: "path_resolve scenario_env [''/proj''] = ''/proj''"
    by (simp add: scenario_env_def posix_defs)
  have "reachability_metrics ''FAST''
          \<lparr> nodes = nodes scenario_graph, edges = edges scenario_graph,
            metadata = (metadata scenario_graph)\<lparr> max_depth_detected := 0,
               indirect_nodes_found := 0 \<rparr> \<rparr> = scenario_graph"
    by (simp add: reachability_metrics_def root_modules_def build_adjList_def neighbors_def
        scenario_graph_def module_node_def Let_def)
  then show ?thesis
    unfolding parseToGraph_def Let_def root scenario_collect sum.case prod.case
      scenario_process option.case
    by (simp add: graph.truncate_def)
qed

definition scenario_record :: safety_record where
  "scenario_record =
     \<lparr> hasTryCatch = False, hasNullCheck = False, isDestructuredImmediately = False,
       assumedExists = True, isAsyncCall = False, isOptionalChaining = False,
       sr_file = ''/proj/b.js'', sr_line = Some 1, sr_column = Some 47, sr_callee = ''foo'',
       sr_unsafeDereferenceLikelihood = 85 / 100,
       sr_unhandledErrorProbability = 60 / 100,
       sr_unsafeDereferenceBreakdown =
         [''Base: No explicit null check or optional chaining found (+0.7)'',
          ''Condition: Assumed existence without checks (+0.15)''],
       sr_unhandledErrorBreakdown = [''Base: No try/catch block found (+0.6)''] \<rparr>"

lemma scenario_scan:
  "scanCallerSafety scenario_env ''/proj/b.js'' ''foo'' = [CallSite scenario_record]"
  by (simp add: scanCallerSafety_def scenario_env_def scenario_parser_def a_src_def b_src_def
      b_tree_def scenario_record_def posix_env_def suffix_to_prefix
      visit_call_def callee_name_def scan_call_def walked_def is_await_def is_optional_def
      is_try_def is_function_like_def node_async_def null_check_at_def declarator_binding_def
      calculateSafetyProbabilities_def toFixed2_def Let_def paths_from.simps opt_list_def)

lemma scenario_blast:
  "map (\<lambda>r. (imp_id r, imp_depth r)) (calculateBlastRadius scenario_graph ''a.js::foo'')
     = [(''b.js::bar'', 1)]"
  by (simp add: calculateBlastRadius_def build_adj_def add_edge_def adj_add_def short_name_def
      js_split_def dependents_of_def set_add_all_def set_add_def scenario_graph_def Let_def)

text \<open>
  Claim C1. End-to-end scenario: for the project whose root holds \<open>a.js\<close>, exporting the
  function \<open>foo\<close>, and \<open>b.js\<close>, importing \<open>foo\<close> from \<open>./a.js\<close> and defining \<open>bar\<close>
  that calls \<open>foo()\<close> with no guards, the blast radius of \<open>a.js::foo\<close> in the graph the
  builder returns is exactly one entry, \<open>b.js::bar\<close> at depth 1, and the safety scan of
  \<open>b.js\<close> for \<open>foo\<close> yields one record, with assumed-exists true,
  unsafe-dereference-likelihood 0.85 and unhandled-error-probability 0.60.
\<close>

theorem end_to_end_scenario:
  "(case parseToGraph scenario_env ''/proj'' ''FAST'' scenario_root of
      Some (Inr g) \<Rightarrow> map (\<lambda>r. (imp_id r, imp_depth r)) (calculateBlastRadius g ''a.js::foo'')
    | _ \<Rightarrow> []) = [(''b.js::bar'', 1)]
   \<and> (case scanCallerSafety scenario_env ''/proj/b.js'' ''foo'' of
        [CallSite r] \<Rightarrow>
          assumedExists r \<and> sr_unsafeDereferenceLikelihood r = 85 / 100
          \<and> sr_unhandledErrorProbability r = 60 / 100
      | _ \<Rightarrow> False)"
  by (simp add: scenario_parse scenario_blast scenario_scan scenario_record_def)

section \<open>Properties of the graph builder\<close>

definition outcome_state :: "'s outcome \<Rightarrow> 's" where
  "outcome_state oc = (case oc of Normal s \<Rightarrow> s | Thrown msg s \<Rightarrow> s)"

text \<open>Every processed file was collected, and every collected file has its relative
  path registered.\<close>

definition wf_state :: "pstate \<Rightarrow> bool" where
  "wf_state st =
     (set (processedFiles st) \<subseteq> set (allProjectFiles st)
      \<and> set (allProjectFiles st) \<subseteq> dom (map_of (fileToRelPathMap st)))"

text \<open>What a step leaves alone or only extends.\<close>

definition frame_ok :: "pstate \<Rightarrow> pstate \<Rightarrow> bool" where
  "frame_ok st st' =
     (allProjectFiles st' = allProjectFiles st
      \<and> set (processedFiles st) \<subseteq> set (processedFiles st')
      \<and> dom (map_of (fileToRelPathMap st)) \<subseteq> dom (map_of (fileToRelPathMap st')))"

text \<open>A step adds at least as much to the attempted imports as to the resolved ones, and
  at least as much to the files as to the unresolved files.\<close>

definition counters_le :: "pstate \<Rightarrow> pstate \<Rightarrow> bool" where
  "counters_le st st' =
     (resolved_imports (metadata st') + total_imports (metadata st)
        \<le> total_imports (metadata st') + resolved_imports (metadata st)
      \<and> unresolved_files (metadata st') + total_files (metadata st)
        \<le> total_files (metadata st') + unresolved_files (metadata st))"

definition pending :: "pstate \<Rightarrow> nat" where
  "pending st = card (set (allProjectFiles st) - set (processedFiles st))"

lemma frame_ok_refl: "frame_ok st st"
  by (simp add: frame_ok_def)

lemma frame_ok_trans: "frame_ok a b \<Longrightarrow> frame_ok b c \<Longrightarrow> frame_ok a c"
  unfolding frame_ok_def by (metis subset_trans)

lemma counters_le_refl: "counters_le st st"
  by (simp add: counters_le_def)

lemma counters_le_trans: "counters_le a b \<Longrightarrow> counters_le b c \<Longrightarrow> counters_le a c"
  by (auto simp: counters_le_def)

lemma pending_mono: "frame_ok st st' \<Longrightarrow> pending st' \<le> pending st"
  unfolding pending_def frame_ok_def
  by (intro card_mono) auto

lemma set_add_member: "x \<in> set xs \<Longrightarrow> set_add x xs = xs"
  by (simp add: set_add_def)

lemma find_Some_holds: "find P xs = Some x \<Longrightarrow> P x \<and> x \<in> set xs"
  by (induction xs) (auto split: if_splits)

lemma try_candidates_member:
  "try_candidates env p files = Some r \<Longrightarrow> r \<in> set files"
  by (auto simp: try_candidates_def split: option.splits if_splits dest: find_Some_holds)

lemma resolveImportPath_member:
  "resolveImportPath env importer spec files proot = Some r \<Longrightarrow> r \<in> set files"
  by (auto simp: resolveImportPath_def Let_def split: option.splits if_splits
           dest: try_candidates_member)

lemma handle_source_frame:
  assumes "handle_source env mode proot fullPath relPath kind spec st = (st', next)"
  shows "allProjectFiles st' = allProjectFiles st"
    and "processedFiles st' = processedFiles st"
    and "fileToRelPathMap st' = fileToRelPathMap st"
    and "counters_le st st'"
    and "next = Some r \<Longrightarrow> r \<in> set (allProjectFiles st) \<and> r \<notin> set (processedFiles st)"
  using assms
  by (auto simp: handle_source_def Let_def bump_total_imports_def bump_resolved_imports_def
        push_edge_def counters_le_def
      split: option.splits if_splits dest: resolveImportPath_member)


lemma add_function_frame:
  "allProjectFiles (add_function rel nodeId nd n st) = allProjectFiles st"
  "processedFiles (add_function rel nodeId nd n st) = processedFiles st"
  "fileToRelPathMap (add_function rel nodeId nd n st) = fileToRelPathMap st"
  "metadata (add_function rel nodeId nd n st) = metadata st"
  by (simp_all add: add_function_def Let_def set_node_def push_edge_def)

lemma handle_function_frame:
  assumes "st' = outcome_state (handle_function env proot fullPath relPath n parent st)"
  shows "allProjectFiles st' = allProjectFiles st"
    and "processedFiles st' = processedFiles st"
    and "fileToRelPathMap st' = fileToRelPathMap st"
    and "metadata st' = metadata st"
  using assms
  by (auto simp: handle_function_def Let_def outcome_state_def add_function_frame
      split: sum.splits option.splits if_splits)

lemma enter_path_frame:
  assumes "enter_path env mode proot fullPath relPath p st = (oc, next)"
  shows "allProjectFiles (outcome_state oc) = allProjectFiles st"
    and "processedFiles (outcome_state oc) = processedFiles st"
    and "fileToRelPathMap (outcome_state oc) = fileToRelPathMap st"
    and "counters_le st (outcome_state oc)"
    and "next = Some r \<Longrightarrow> r \<in> set (allProjectFiles st) \<and> r \<notin> set (processedFiles st)"
    and "next = Some r \<Longrightarrow> \<exists>s. oc = Normal s"
proof -
  obtain n pos ancestors where p: "p = (n, pos, ancestors)" by (cases p)
  let ?parent = "case ancestors of [] \<Rightarrow> None | a # x \<Rightarrow> Some (fst a)"
  have src: "allProjectFiles (outcome_state oc) = allProjectFiles st
      \<and> processedFiles (outcome_state oc) = processedFiles st
      \<and> fileToRelPathMap (outcome_state oc) = fileToRelPathMap st
      \<and> counters_le st (outcome_state oc)
      \<and> (next = Some r \<longrightarrow> r \<in> set (allProjectFiles st) \<and> r \<notin> set (processedFiles st))
      \<and> (next = Some r \<longrightarrow> (\<exists>s. oc = Normal s))"
    if "handle_source env mode proot fullPath relPath kind spec st = (s', next)"
      and "oc = Normal s'" for kind spec s'
    using handle_source_frame [OF that(1)] that(2) by (simp add: outcome_state_def)
  have fn: "allProjectFiles (outcome_state oc) = allProjectFiles st
      \<and> processedFiles (outcome_state oc) = processedFiles st
      \<and> fileToRelPathMap (outcome_state oc) = fileToRelPathMap st
      \<and> counters_le st (outcome_state oc)
      \<and> (next = Some r \<longrightarrow> r \<in> set (allProjectFiles st) \<and> r \<notin> set (processedFiles st))
      \<and> (next = Some r \<longrightarrow> (\<exists>s. oc = Normal s))"
    if "oc = handle_function env proot fullPath relPath n ?parent st" and "next = None"
    using handle_function_frame [of "outcome_state oc" env proot fullPath relPath n ?parent st] that
    by (simp add: counters_le_def)
  have same: "allProjectFiles (outcome_state oc) = allProjectFiles st
      \<and> processedFiles (outcome_state oc) = processedFiles st
      \<and> fileToRelPathMap (outcome_state oc) = fileToRelPathMap st
      \<and> counters_le st (outcome_state oc)
      \<and> (next = Some r \<longrightarrow> r \<in> set (allProjectFiles st) \<and> r \<notin> set (processedFiles st))
      \<and> (next = Some r \<longrightarrow> (\<exists>s. oc = Normal s))"
    if "oc = Normal st" and "next = None"
    using that by (simp add: outcome_state_def counters_le_refl)
  have "allProjectFiles (outcome_state oc) = allProjectFiles st
      \<and> processedFiles (outcome_state oc) = processedFiles st
      \<and> fileToRelPathMap (outcome_state oc) = fileToRelPathMap st
      \<and> counters_le st (outcome_state oc)
      \<and> (next = Some r \<longrightarrow> r \<in> set (allProjectFiles st) \<and> r \<notin> set (processedFiles st))
      \<and> (next = Some r \<longrightarrow> (\<exists>s. oc = Normal s))"
    using assms p src fn same
    by (cases n) (auto simp: enter_path_def is_function_like_def split: prod.splits option.splits)
  then show "allProjectFiles (outcome_state oc) = allProjectFiles st"
    and "processedFiles (outcome_state oc) = processedFiles st"
    and "fileToRelPathMap (outcome_state oc) = fileToRelPathMap st"
    and "counters_le st (outcome_state oc)"
    and "next = Some r \<Longrightarrow> r \<in> set (allProjectFiles st) \<and> r \<notin> set (processedFiles st)"
    and "next = Some r \<Longrightarrow> \<exists>s. oc = Normal s"
    by blast+
qed


lemma dom_update_superset: "dom (map_of al) \<subseteq> dom (map_of (AList.update k v al))"
  by (auto simp: update_conv')

lemma begin_file_frame:
  assumes "f \<in> set (allProjectFiles st)"
  shows "allProjectFiles (begin_file env proot f rel st) = allProjectFiles st"
    and "set (processedFiles (begin_file env proot f rel st)) = insert f (set (processedFiles st))"
    and "dom (map_of (fileToRelPathMap st))
           \<subseteq> dom (map_of (fileToRelPathMap (begin_file env proot f rel st)))"
    and "metadata (begin_file env proot f rel st)
           = (metadata st)\<lparr> total_files := total_files (metadata st) + 1 \<rparr>"
  using assms dom_update_superset [of "fileToRelPathMap st" f]
  by (auto simp: begin_file_def Let_def set_node_def bump_total_files_def set_set_add
        set_add_member)

lemma bump_unresolved_frame:
  "allProjectFiles (bump_unresolved_files st) = allProjectFiles st"
  "processedFiles (bump_unresolved_files st) = processedFiles st"
  "fileToRelPathMap (bump_unresolved_files st) = fileToRelPathMap st"
  "metadata (bump_unresolved_files st)
     = (metadata st)\<lparr> unresolved_files := unresolved_files (metadata st) + 1 \<rparr>"
  by (simp_all add: bump_unresolved_files_def)

text \<open>The summary of a run of \<open>processFile\<close> or of a traversal from \<open>st\<close> to
  \<open>st'\<close>.\<close>

definition step_ok :: "pstate \<Rightarrow> pstate \<Rightarrow> bool" where
  "step_ok st st' = (wf_state st' \<and> frame_ok st st' \<and> counters_le st st')"

lemma step_ok_trans: "step_ok a b \<Longrightarrow> step_ok b c \<Longrightarrow> step_ok a c"
  unfolding step_ok_def using frame_ok_trans counters_le_trans by blast

lemma step_ok_pending: "step_ok st st' \<Longrightarrow> pending st' \<le> pending st"
  by (simp add: step_ok_def pending_mono)

lemma bump_unresolved_step:
  assumes "step_ok st st2"
    and "Suc (unresolved_files (metadata st2) + total_files (metadata st))
           \<le> total_files (metadata st2) + unresolved_files (metadata st)"
  shows "step_ok st (bump_unresolved_files st2)"
  using assms
  by (auto simp: step_ok_def wf_state_def frame_ok_def counters_le_def bump_unresolved_frame)

lemma begin_file_step:
  assumes "wf_state st" "f \<in> set (allProjectFiles st)" "f \<notin> set (processedFiles st)"
  shows "wf_state (begin_file env proot f rel st)"
    and "frame_ok st (begin_file env proot f rel st)"
    and "Suc (pending (begin_file env proot f rel st)) = pending st"
    and "total_files (metadata (begin_file env proot f rel st)) = total_files (metadata st) + 1"
    and "unresolved_files (metadata (begin_file env proot f rel st))
           = unresolved_files (metadata st)"
    and "total_imports (metadata (begin_file env proot f rel st)) = total_imports (metadata st)"
    and "resolved_imports (metadata (begin_file env proot f rel st))
           = resolved_imports (metadata st)"
proof -
  note b = begin_file_frame [OF assms(2), of env proot rel]
  show "wf_state (begin_file env proot f rel st)"
    using assms b(3) unfolding wf_state_def b(1) b(2) by blast
  show "frame_ok st (begin_file env proot f rel st)"
    unfolding frame_ok_def b(1) b(2) using b(3) by blast
  have "set (allProjectFiles st) - insert f (set (processedFiles st))
          = (set (allProjectFiles st) - set (processedFiles st)) - {f}"
    by blast
  moreover have "f \<in> set (allProjectFiles st) - set (processedFiles st)"
    using assms by simp
  then have "Suc (card ((set (allProjectFiles st) - set (processedFiles st)) - {f}))
          = card (set (allProjectFiles st) - set (processedFiles st))"
    by (intro card_Suc_Diff1) simp_all
  ultimately show "Suc (pending (begin_file env proot f rel st)) = pending st"
    unfolding pending_def b(1) b(2) by simp
  show "total_files (metadata (begin_file env proot f rel st)) = total_files (metadata st) + 1"
    "unresolved_files (metadata (begin_file env proot f rel st)) = unresolved_files (metadata st)"
    "total_imports (metadata (begin_file env proot f rel st)) = total_imports (metadata st)"
    "resolved_imports (metadata (begin_file env proot f rel st)) = resolved_imports (metadata st)"
    by (simp_all add: b(4))
qed

lemma enter_path_step:
  assumes "enter_path env mode proot fullPath relPath p st = (oc, next)" and "wf_state st"
  shows "step_ok st (outcome_state oc)"
  using enter_path_frame(1-4) [OF assms(1)] assms(2)
  by (simp add: step_ok_def wf_state_def frame_ok_def)

lemma process_visit_ok:
  "wf_state st \<Longrightarrow> f \<in> set (allProjectFiles st) \<Longrightarrow> pending st \<le> k \<Longrightarrow>
     \<exists>st'. processFile env mode proot k f st = Some st' \<and> step_ok st st'
           \<and> f \<in> set (processedFiles st')"
  "wf_state st \<Longrightarrow> pending st \<le> k \<Longrightarrow>
     \<exists>oc. visit_paths env mode proot k f rel ps st = Some oc \<and> step_ok st (outcome_state oc)"
proof (induction env mode proot k f st and env mode proot k f rel ps st
       rule: processFile_visit_paths.induct)
  case (1 env graphMode projectRoot fullPath st)
  have "fullPath \<in> set (processedFiles st)"
  proof (rule ccontr)
    assume "fullPath \<notin> set (processedFiles st)"
    then have "fullPath \<in> set (allProjectFiles st) - set (processedFiles st)"
      using 1 by simp
    then have "pending st \<noteq> 0"
      unfolding pending_def by (metis card_0_eq empty_iff finite_Diff finite_set)
    with 1 show False by simp
  qed
  then show ?case
    using 1 by (simp add: step_ok_def frame_ok_refl counters_le_refl)
next
  case (2 env graphMode projectRoot k fullPath st)
  show ?case
  proof (cases "fullPath \<in> set (processedFiles st)")
    case True
    then show ?thesis
      using "2.prems" by (simp add: step_ok_def frame_ok_refl counters_le_refl)
  next
    case False
    from "2.prems" obtain relPath where rel: "map_of (fileToRelPathMap st) fullPath = Some relPath"
      unfolding wf_state_def by blast
    let ?st1 = "begin_file env projectRoot fullPath relPath st"
    note b = begin_file_step [OF "2.prems"(1,2) False, of env projectRoot relPath]
    have pend: "pending ?st1 \<le> k" using b(3) "2.prems"(3) by simp
    have in1: "fullPath \<in> set (processedFiles ?st1)"
      using begin_file_frame(2) [OF "2.prems"(2), of env projectRoot relPath] by simp
    have c1: "counters_le st ?st1" using b by (simp add: counters_le_def)
    have s1: "step_ok st ?st1" using b(1,2) c1 by (simp add: step_ok_def)
    show ?thesis
    proof (cases "load_tree env fullPath")
      case (LoadFailed msg)
      have "step_ok st (bump_unresolved_files ?st1)"
        using b(1,2,4,5,6,7)
        by (simp add: step_ok_def wf_state_def frame_ok_def counters_le_def bump_unresolved_frame)
      then show ?thesis
        using False rel LoadFailed in1 by (simp add: bump_unresolved_frame)
    next
      case NoScript
      then show ?thesis using False rel s1 in1 by simp
    next
      case (Loaded tree)
      from "2.IH" [OF False rel refl Loaded b(1) pend]
      obtain oc where oc: "visit_paths env graphMode projectRoot k fullPath relPath
                              (paths_from [] [] tree) ?st1 = Some oc"
        and ok: "step_ok ?st1 (outcome_state oc)" by blast
      have in2: "fullPath \<in> set (processedFiles (outcome_state oc))"
        using in1 ok by (auto simp: step_ok_def frame_ok_def)
      show ?thesis
      proof (cases oc)
        case (Normal st2)
        then have "step_ok ?st1 st2" using ok by (simp add: outcome_state_def)
        with s1 have "step_ok st st2" by (rule step_ok_trans)
        then show ?thesis using False rel Loaded oc Normal in2 by (simp add: outcome_state_def)
      next
        case (Thrown msg st2)
        then have o2: "step_ok ?st1 st2" using ok by (simp add: outcome_state_def)
        from s1 o2 have s2: "step_ok st st2" by (rule step_ok_trans)
        have "unresolved_files (metadata st2) + total_files (metadata ?st1)
                \<le> total_files (metadata st2) + unresolved_files (metadata ?st1)"
          using o2 by (simp add: step_ok_def counters_le_def)
        then have "Suc (unresolved_files (metadata st2) + total_files (metadata st))
                \<le> total_files (metadata st2) + unresolved_files (metadata st)"
          using b(4,5) by simp
        with s2 have "step_ok st (bump_unresolved_files st2)"
          by (rule bump_unresolved_step)
        then show ?thesis
          using False rel Loaded oc Thrown in2
          by (simp add: outcome_state_def bump_unresolved_frame)
      qed
    qed
  qed
next
  case (3 env graphMode projectRoot k fullPath relPath st)
  then show ?case
    by (simp add: outcome_state_def step_ok_def frame_ok_refl counters_le_refl)
next
  case (4 env graphMode projectRoot k fullPath relPath p ps st)
  obtain oc nxt where e: "enter_path env graphMode projectRoot fullPath relPath p st = (oc, nxt)"
    by (cases "enter_path env graphMode projectRoot fullPath relPath p st")
  note s = enter_path_step [OF e "4.prems"(1)]
  show ?case
  proof (cases oc)
    case (Thrown msg st')
    then show ?thesis using e s by simp
  next
    case (Normal st')
    then have s': "step_ok st st'" using s by (simp add: outcome_state_def)
    then have wf': "wf_state st'" and pend': "pending st' \<le> k"
      using step_ok_pending [OF s'] "4.prems"(2) by (simp_all add: step_ok_def)
    show ?thesis
    proof (cases nxt)
      case None
      from "4.IH"(1) [OF e [symmetric] Normal None wf' pend']
      obtain oc' where v: "visit_paths env graphMode projectRoot k fullPath relPath ps st' = Some oc'"
        and o: "step_ok st' (outcome_state oc')" by blast
      have "visit_paths env graphMode projectRoot k fullPath relPath (p # ps) st = Some oc'"
        using e Normal None v by simp
      moreover from s' o have "step_ok st (outcome_state oc')" by (rule step_ok_trans)
      ultimately show ?thesis by blast
    next
      case (Some r)
      have r: "r \<in> set (allProjectFiles st')"
        using enter_path_frame(5) [OF e Some] enter_path_frame(1) [OF e] Normal
        by (simp add: outcome_state_def)
      from "4.IH"(2) [OF e [symmetric] Normal Some wf' r pend']
      obtain st'' where p: "processFile env graphMode projectRoot k r st' = Some st''"
        and s'': "step_ok st' st''" by blast
      have wf'': "wf_state st''" and pend'': "pending st'' \<le> k"
        using step_ok_pending [OF s''] pend' s'' by (simp_all add: step_ok_def)
      from "4.IH"(3) [OF e [symmetric] Normal Some p wf'' pend'']
      obtain oc' where v: "visit_paths env graphMode projectRoot k fullPath relPath ps st'' = Some oc'"
        and o: "step_ok st'' (outcome_state oc')" by blast
      have "visit_paths env graphMode projectRoot k fullPath relPath (p # ps) st = Some oc'"
        using e Normal Some p v by simp
      moreover from s' s'' have "step_ok st st''" by (rule step_ok_trans)
      then have "step_ok st (outcome_state oc')" using o by (rule step_ok_trans)
      ultimately show ?thesis by blast
    qed
  qed
qed


lemma collectFiles_registered:
  assumes "collectFiles env proot dir entries acc = Inr acc'"
    and "set (fst acc) \<subseteq> dom (map_of (snd acc))"
  shows "set (fst acc') \<subseteq> dom (map_of (snd acc'))"
  using assms
proof (induction env proot dir entries acc arbitrary: acc' rule: collectFiles.induct)
  case (1 env projectRoot dir acc)
  then show ?case by simp
next
  case (2 env projectRoot dir name rest files rels)
  show ?case
  proof (cases "source_name name")
    case False
    with 2 show ?thesis by simp
  next
    case True
    let ?fp = "path_join env dir name"
    have "set (set_add ?fp files)
            \<subseteq> dom (map_of (AList.update ?fp (path_relative env projectRoot ?fp) rels))"
      using "2.prems"(2) by (auto simp: set_set_add update_conv')
    with 2 True show ?thesis by (simp add: Let_def)
  qed
next
  case (3 env projectRoot dir name sub rest acc)
  show ?case
  proof (cases "name \<in> set excluded_dirs")
    case True
    with 3 show ?thesis by simp
  next
    case False
    with "3.prems"(1) obtain mid where
      mid: "collectFiles env projectRoot (path_join env dir name) sub acc = Inr mid"
      and rest: "collectFiles env projectRoot dir rest mid = Inr acc'"
      by (auto split: sum.splits)
    have "set (fst mid) \<subseteq> dom (map_of (snd mid))"
      using "3.IH"(2) [OF False mid "3.prems"(2)] .
    then show ?thesis using "3.IH"(3) [OF False mid rest] by simp
  qed
next
  case (4 env projectRoot dir name rest acc)
  then show ?case by (simp split: if_splits)
qed

lemma collect_root_registered:
  assumes "collect_root env proot rootdir = Inr (files, rels)"
  shows "set files \<subseteq> dom (map_of rels)"
proof -
  from assms obtain name entries where
    "collectFiles env proot proot entries ([], []) = Inr (files, rels)"
    by (cases rootdir) (simp_all add: collect_root_def)
  from collectFiles_registered [OF this] show ?thesis by simp
qed

lemma initial_state_wf:
  assumes "set files \<subseteq> dom (map_of rels)"
  shows "wf_state (initial_state files rels)"
    and "pending (initial_state files rels) \<le> length files"
  using assms by (simp_all add: wf_state_def pending_def initial_state_def card_length)

lemma process_all_ok:
  assumes "wf_state st" "set fs \<subseteq> set (allProjectFiles st)" "pending st \<le> k"
  shows "\<exists>st'. process_all env mode proot k fs st = Some st' \<and> step_ok st st'
           \<and> set fs \<subseteq> set (processedFiles st')"
  using assms
proof (induction fs arbitrary: st)
  case Nil
  then show ?case by (simp add: step_ok_def frame_ok_refl counters_le_refl)
next
  case (Cons f fs)
  from process_visit_ok(1) [of st f k env mode proot] Cons.prems
  obtain st1 where p: "processFile env mode proot k f st = Some st1"
    and s1: "step_ok st st1" and f: "f \<in> set (processedFiles st1)" by auto
  have "wf_state st1" "set fs \<subseteq> set (allProjectFiles st1)" "pending st1 \<le> k"
    using s1 Cons.prems step_ok_pending [OF s1] by (auto simp: step_ok_def frame_ok_def)
  from Cons.IH [OF this]
  obtain st' where r: "process_all env mode proot k fs st1 = Some st'"
    and s2: "step_ok st1 st'" and fs: "set fs \<subseteq> set (processedFiles st')" by blast
  have "f \<in> set (processedFiles st')" using f s2 by (auto simp: step_ok_def frame_ok_def)
  moreover from s1 s2 have "step_ok st st'" by (rule step_ok_trans)
  ultimately show ?case using p r fs by simp
qed

lemma reachability_metrics_counters:
  "unresolved_files (metadata (reachability_metrics mode g)) = unresolved_files (metadata g)"
  "total_files (metadata (reachability_metrics mode g)) = total_files (metadata g)"
  "total_imports (metadata (reachability_metrics mode g)) = total_imports (metadata g)"
  "resolved_imports (metadata (reachability_metrics mode g)) = resolved_imports (metadata g)"
  "nodes (reachability_metrics mode g) = nodes g"
  "edges (reachability_metrics mode g) = edges g"
  by (simp_all add: reachability_metrics_def Let_def split_beta)

text \<open>What \<open>parseToGraph\<close> returns, in terms of the final state of the loop over the
  collected files.\<close>

lemma parseToGraph_cases:
  "(\<exists>msg. collect_root env (path_resolve env [targetPath]) rootdir = Inl msg
          \<and> parseToGraph env targetPath mode rootdir = Some (Inl msg))
   \<or> (\<exists>files rels st.
          collect_root env (path_resolve env [targetPath]) rootdir = Inr (files, rels)
        \<and> process_all env mode (path_resolve env [targetPath]) (length files) files
              (initial_state files rels) = Some st
        \<and> step_ok (initial_state files rels) st
        \<and> set files \<subseteq> set (processedFiles st)
        \<and> parseToGraph env targetPath mode rootdir
            = Some (Inr (reachability_metrics mode (graph.truncate st))))"
proof (cases "collect_root env (path_resolve env [targetPath]) rootdir")
  case (Inl msg)
  then show ?thesis by (simp add: parseToGraph_def)
next
  case (Inr acc)
  obtain files rels where acc: "acc = (files, rels)" by (cases acc)
  have reg: "set files \<subseteq> dom (map_of rels)"
    using Inr acc collect_root_registered by blast
  have "set files \<subseteq> set (allProjectFiles (initial_state files rels))"
    by (simp add: initial_state_def)
  from process_all_ok [OF initial_state_wf(1) [OF reg] this initial_state_wf(2) [OF reg]]
  obtain st where "process_all env mode (path_resolve env [targetPath]) (length files) files
              (initial_state files rels) = Some st"
    "step_ok (initial_state files rels) st" "set files \<subseteq> set (processedFiles st)"
    by blast
  then show ?thesis using Inr acc by (simp add: parseToGraph_def)
qed

text \<open>The builder always returns: the bound on nested calls is never used up, and every
  file handed to \<open>processFile\<close> has its relative path registered.\<close>

theorem parseToGraph_returns:
  "\<exists>r. parseToGraph env targetPath mode rootdir = Some r"
  using parseToGraph_cases [of env targetPath rootdir mode] by blast

text \<open>
  Claim C10. Metadata counter consistency: for every project path and mode, the graph
  the builder returns has resolved_imports at most total_imports and unresolved_files at
  most total_files.
\<close>

theorem metadata_counters_consistent:
  assumes "parseToGraph env targetPath mode rootdir = Some (Inr g)"
  shows "resolved_imports (metadata g) \<le> total_imports (metadata g)
       \<and> unresolved_files (metadata g) \<le> total_files (metadata g)"
proof -
  from parseToGraph_cases [of env targetPath rootdir mode] assms
  obtain files rels st where s: "step_ok (initial_state files rels) st"
    and g: "g = reachability_metrics mode (graph.truncate st)"
    by auto
  have "resolved_imports (metadata st) \<le> total_imports (metadata st)
      \<and> unresolved_files (metadata st) \<le> total_files (metadata st)"
    using s by (simp add: step_ok_def counters_le_def initial_state_def empty_metadata_def)
  then show ?thesis
    by (simp add: g reachability_metrics_counters graph.truncate_def)
qed

theorem metadata_counters_consistent_witness:
  "parseToGraph scenario_env ''/proj'' ''FAST'' scenario_root = Some (Inr scenario_graph)
   \<and> resolved_imports (metadata scenario_graph) \<le> total_imports (metadata scenario_graph)
   \<and> unresolved_files (metadata scenario_graph) \<le> total_files (metadata scenario_graph)"
  using metadata_counters_consistent [OF scenario_parse] scenario_parse by simp

text \<open>
  An induction principle for the builder. \<open>I\<close> is kept by every step, \<open>T\<close> holds of the
  state a visitor throws in, and \<open>G f rel p\<close> is what is known of a path \<open>p\<close> of the
  tree of a file \<open>f\<close> with relative path \<open>rel\<close>.
\<close>

definition outcome_ok :: "(pstate \<Rightarrow> bool) \<Rightarrow> (pstate \<Rightarrow> bool) \<Rightarrow> pstate outcome \<Rightarrow> bool" where
  "outcome_ok I T oc = (case oc of Normal s \<Rightarrow> I s | Thrown msg s \<Rightarrow> T s)"

lemma visit_paths_induct:
  fixes I T :: "pstate \<Rightarrow> bool" and G :: "string \<Rightarrow> string \<Rightarrow> nodepath \<Rightarrow> bool"
  assumes enter: "\<And>p st oc nxt. I st \<Longrightarrow> G f rel p \<Longrightarrow>
        enter_path env mode proot f rel p st = (oc, nxt) \<Longrightarrow> outcome_ok I T oc"
    and nested: "\<And>r st st'. I st \<Longrightarrow> processFile env mode proot k r st = Some st' \<Longrightarrow> I st'"
  shows "I st \<Longrightarrow> \<forall>p\<in>set ps. G f rel p \<Longrightarrow>
         visit_paths env mode proot k f rel ps st = Some oc \<Longrightarrow> outcome_ok I T oc"
proof (induction ps arbitrary: st)
  case Nil
  then show ?case by (auto simp: outcome_ok_def)
next
  case (Cons p ps)
  obtain oc1 nxt where e: "enter_path env mode proot f rel p st = (oc1, nxt)"
    by (cases "enter_path env mode proot f rel p st")
  have ok1: "outcome_ok I T oc1"
    using Cons.prems(1) _ e by (rule enter) (use Cons.prems(2) in simp)
  have G: "\<forall>p\<in>set ps. G f rel p" using Cons.prems(2) by simp
  show ?case
  proof (cases oc1)
    case (Thrown msg s)
    then show ?thesis using e ok1 Cons.prems(3) by simp
  next
    case (Normal s)
    then have Is: "I s" using ok1 by (simp add: outcome_ok_def)
    show ?thesis
    proof (cases nxt)
      case None
      have "visit_paths env mode proot k f rel ps s = Some oc"
        using Cons.prems(3) e Normal None by simp
      with Is G show ?thesis by (rule Cons.IH)
    next
      case (Some r)
      from Cons.prems(3) e Normal Some obtain s' where
        p: "processFile env mode proot k r s = Some s'"
        and v: "visit_paths env mode proot k f rel ps s' = Some oc"
        by (cases "processFile env mode proot k r s") simp_all
      from Is p have "I s'" by (rule nested)
      then show ?thesis using G v by (rule Cons.IH)
    qed
  qed
qed

lemma builder_induct:
  fixes I T :: "pstate \<Rightarrow> bool" and G :: "string \<Rightarrow> string \<Rightarrow> nodepath \<Rightarrow> bool"
  assumes failed: "\<And>f rel st msg. I st \<Longrightarrow> f \<notin> set (processedFiles st) \<Longrightarrow>
        map_of (fileToRelPathMap st) f = Some rel \<Longrightarrow> load_tree env f = LoadFailed msg \<Longrightarrow>
        I (bump_unresolved_files (begin_file env proot f rel st))"
    and noscript: "\<And>f rel st. I st \<Longrightarrow> f \<notin> set (processedFiles st) \<Longrightarrow>
        map_of (fileToRelPathMap st) f = Some rel \<Longrightarrow> load_tree env f = NoScript \<Longrightarrow>
        I (begin_file env proot f rel st)"
    and loaded: "\<And>f rel st tree. I st \<Longrightarrow> f \<notin> set (processedFiles st) \<Longrightarrow>
        map_of (fileToRelPathMap st) f = Some rel \<Longrightarrow> load_tree env f = Loaded tree \<Longrightarrow>
        I (begin_file env proot f rel st) \<and> (\<forall>p\<in>set (paths_from [] [] tree). G f rel p)"
    and enter: "\<And>f rel p st oc nxt. I st \<Longrightarrow> G f rel p \<Longrightarrow>
        enter_path env mode proot f rel p st = (oc, nxt) \<Longrightarrow> outcome_ok I T oc"
    and thrown: "\<And>s. T s \<Longrightarrow> I (bump_unresolved_files s)"
  shows "I st \<Longrightarrow> processFile env mode proot k f st = Some st' \<Longrightarrow> I st'"
proof (induction k arbitrary: f st st')
  case 0
  then show ?case by (simp split: if_splits)
next
  case (Suc k)
  show ?case
  proof (cases "f \<in> set (processedFiles st)")
    case True
    with Suc.prems show ?thesis by simp
  next
    case False
    with Suc.prems(2) obtain rel where rel: "map_of (fileToRelPathMap st) f = Some rel"
      by (cases "map_of (fileToRelPathMap st) f") simp_all
    let ?st1 = "begin_file env proot f rel st"
    show ?thesis
    proof (cases "load_tree env f")
      case (LoadFailed msg)
      have "I (bump_unresolved_files ?st1)"
        using Suc.prems(1) False rel LoadFailed by (rule failed)
      then show ?thesis using Suc.prems(2) False rel LoadFailed by simp
    next
      case NoScript
      have "I ?st1" using Suc.prems(1) False rel NoScript by (rule noscript)
      then show ?thesis using Suc.prems(2) False rel NoScript by simp
    next
      case (Loaded tree)
      have l: "I ?st1 \<and> (\<forall>p\<in>set (paths_from [] [] tree). G f rel p)"
        using Suc.prems(1) False rel Loaded by (rule loaded)
      from Suc.prems(2) False rel Loaded obtain oc where
        v: "visit_paths env mode proot k f rel (paths_from [] [] tree) ?st1 = Some oc"
        by (cases "visit_paths env mode proot k f rel (paths_from [] [] tree) ?st1") simp_all
      have ok: "outcome_ok I T oc"
      proof (rule visit_paths_induct [where I = I and T = T and G = G, OF _ _ _ _ v])
        show "I ?st1" using l by simp
        show "\<forall>p\<in>set (paths_from [] [] tree). G f rel p" using l by simp
        show "\<And>p st oc nxt. I st \<Longrightarrow> G f rel p \<Longrightarrow>
            enter_path env mode proot f rel p st = (oc, nxt) \<Longrightarrow> outcome_ok I T oc"
          by (rule enter)
        show "\<And>r st st'. I st \<Longrightarrow> processFile env mode proot k r st = Some st' \<Longrightarrow> I st'"
          by (rule Suc.IH)
      qed
      show ?thesis
      proof (cases oc)
        case (Normal s)
        then show ?thesis
          using Suc.prems(2) False rel Loaded v ok by (simp add: outcome_ok_def)
      next
        case (Thrown msg s)
        then have "I (bump_unresolved_files s)"
          using ok thrown by (simp add: outcome_ok_def)
        then show ?thesis using Suc.prems(2) False rel Loaded v Thrown by simp
      qed
    qed
  qed
qed

lemma process_all_induct:
  assumes "\<And>f st st'. I st \<Longrightarrow> processFile env mode proot k f st = Some st' \<Longrightarrow> I st'"
  shows "I st \<Longrightarrow> process_all env mode proot k fs st = Some st' \<Longrightarrow> I st'"
proof (induction fs arbitrary: st)
  case Nil
  then show ?case by simp
next
  case (Cons f fs)
  from Cons.prems(2) obtain s where p: "processFile env mode proot k f st = Some s"
    and r: "process_all env mode proot k fs s = Some st'"
    by (cases "processFile env mode proot k f st") simp_all
  from Cons.prems(1) p have "I s" by (rule assms)
  then show ?case using r by (rule Cons.IH)
qed

end
